theory Spec2Isabelle
  imports Main "HOL-Library.AList"
begin

section \<open>JavaScript strings\<close>

text \<open>
  A JavaScript string is a sequence of UTF-16 code units. The regular expressions of the
  sources carry no \<open>u\<close> flag and so work on code units as well; \<open>length\<close>, \<open>slice\<close>,
  \<open>indexOf\<close> and indexing count code units. A code unit is a natural number below 65536.
\<close>

type_synonym jstring = "nat list"

definition js :: "string \<Rightarrow> jstring" where
  "js s = map of_char s"

definition startsWith :: "jstring \<Rightarrow> jstring \<Rightarrow> bool" where
  "startsWith s p = (take (length p) s = p)"

fun includesStr :: "jstring \<Rightarrow> jstring \<Rightarrow> bool" where
  "includesStr [] p = (p = [])"
| "includesStr (c # cs) p = (startsWith (c # cs) p \<or> includesStr cs p)"

text \<open>\<open>indexOf\<close> and \<open>lastIndexOf\<close> answer -1 when the needle does not occur.\<close>

fun indexOf :: "jstring \<Rightarrow> jstring \<Rightarrow> int" where
  "indexOf [] p = (if p = [] then 0 else - 1)"
| "indexOf (c # cs) p =
     (if startsWith (c # cs) p then 0
      else (let i = indexOf cs p in if i < 0 then - 1 else i + 1))"

fun lastIndexOf :: "jstring \<Rightarrow> jstring \<Rightarrow> int" where
  "lastIndexOf [] p = (if p = [] then 0 else - 1)"
| "lastIndexOf (c # cs) p =
     (let i = lastIndexOf cs p in
      if 0 \<le> i then i + 1 else if startsWith (c # cs) p then 0 else - 1)"

text \<open>\<open>s.slice(a, b)\<close> for \<open>0 \<le> a\<close>; \<open>s.slice(a)\<close> is \<open>drop a s\<close>.\<close>

definition slice :: "jstring \<Rightarrow> nat \<Rightarrow> nat \<Rightarrow> jstring" where
  "slice s a b = take (b - a) (drop a s)"

text \<open>
  \<open>toLowerCase\<close> and \<open>toUpperCase\<close>, code unit by code unit, on Basic Latin, Latin-1 and
  the Latin Extended letters that carry pinyin tone marks. Two letters outside these
  ranges lower to Basic Latin and are kept: U+0130 and the Kelvin sign U+212A. The other
  cased letters of Unicode map to code units that none of the patterns of these modules
  can tell apart from the original and are left as they are.
\<close>

definition lowerUnit :: "nat \<Rightarrow> jstring" where
  "lowerUnit c =
     (if 65 \<le> c \<and> c \<le> 90 then [c + 32]
      else if 192 \<le> c \<and> c \<le> 222 \<and> c \<noteq> 215 then [c + 32]
      else if c = 304 then [105, 775]
      else if c = 8490 then [107]
      else if 256 \<le> c \<and> c \<le> 303 \<and> even c then [c + 1]
      else if 330 \<le> c \<and> c \<le> 375 \<and> even c then [c + 1]
      else if 461 \<le> c \<and> c \<le> 476 \<and> odd c then [c + 1]
      else [c])"

definition toLowerCase :: "jstring \<Rightarrow> jstring" where
  "toLowerCase s = concat (map lowerUnit s)"

definition upperUnit :: "nat \<Rightarrow> jstring" where
  "upperUnit c =
     (if 97 \<le> c \<and> c \<le> 122 then [c - 32]
      else if 224 \<le> c \<and> c \<le> 254 \<and> c \<noteq> 247 then [c - 32]
      else if c = 223 then [83, 83]
      else if c = 255 then [376]
      else if c = 181 then [924]
      else if 256 \<le> c \<and> c \<le> 303 \<and> odd c then [c - 1]
      else if 330 \<le> c \<and> c \<le> 375 \<and> odd c then [c - 1]
      else if 461 \<le> c \<and> c \<le> 476 \<and> even c then [c - 1]
      else [c])"

definition toUpperCase :: "jstring \<Rightarrow> jstring" where
  "toUpperCase s = concat (map upperUnit s)"

text \<open>The class \<open>\s\<close>: white space and line terminators.\<close>

definition isSpace :: "nat \<Rightarrow> bool" where
  "isSpace c \<longleftrightarrow>
     (9 \<le> c \<and> c \<le> 13) \<or> c = 32 \<or> c = 160 \<or> c = 5760 \<or> (8192 \<le> c \<and> c \<le> 8202)
     \<or> c = 8232 \<or> c = 8233 \<or> c = 8239 \<or> c = 8287 \<or> c = 12288 \<or> c = 65279"

definition isDigit :: "nat \<Rightarrow> bool" where
  "isDigit c \<longleftrightarrow> 48 \<le> c \<and> c \<le> 57"

text \<open>The class \<open>\w\<close>, and the assertion \<open>\b\<close> at index \<open>i\<close> of \<open>s\<close>.\<close>

definition isWordChar :: "nat \<Rightarrow> bool" where
  "isWordChar c \<longleftrightarrow>
     (97 \<le> c \<and> c \<le> 122) \<or> (65 \<le> c \<and> c \<le> 90) \<or> isDigit c \<or> c = 95"

definition wordBoundary :: "jstring \<Rightarrow> nat \<Rightarrow> bool" where
  "wordBoundary s i \<longleftrightarrow>
     (0 < i \<and> i \<le> length s \<and> isWordChar (s ! (i - 1))) \<noteq> (i < length s \<and> isWordChar (s ! i))"

datatype error = TypeError | StorageError


section \<open>Pinyin renderer (shared/pinyin.ts)\<close>

definition toneMarks :: "jstring \<Rightarrow> jstring list option" where
  "toneMarks v =
     (if v = js ''a'' then Some [[257], [225], [462], [224], js ''a'']
      else if v = js ''e'' then Some [[275], [233], [283], [232], js ''e'']
      else if v = js ''i'' then Some [[299], [237], [464], [236], js ''i'']
      else if v = js ''o'' then Some [[333], [243], [466], [242], js ''o'']
      else if v = js ''u'' then Some [[363], [250], [468], [249], js ''u'']
      else if v = [252] then Some [[470], [472], [474], [476], [252]]
      else if v = js ''v'' then Some [[470], [472], [474], [476], [252]]
      else None)"

definition vowels :: "jstring list" where
  "vowels = [js ''i'', js ''o'', js ''u'', [252], js ''v'']"

definition getToneVowel :: "jstring \<Rightarrow> jstring option" where
  "getToneVowel syllable =
     (let lower = toLowerCase syllable in
      if includesStr lower (js ''a'') then Some (js ''a'')
      else if includesStr lower (js ''e'') then Some (js ''e'')
      else if includesStr lower (js ''ou'') then Some (js ''o'')
      else snd (fold (\<lambda>v (lastVowelIndex, lastVowel).
                        let idx = lastIndexOf lower v in
                        if idx > lastVowelIndex then (idx, Some v)
                        else (lastVowelIndex, lastVowel))
                     vowels (- 1, None)))"

text \<open>
  \<open>pinyin.split(/\s+/)\<close>: the pieces between the maximal runs of white space; a run at
  either end leaves an empty piece there, and the empty string gives one empty piece.
\<close>

function splitSpaces :: "jstring \<Rightarrow> jstring \<Rightarrow> jstring list" where
  "splitSpaces cur [] = [cur]"
| "splitSpaces cur (c # cs) =
     (if isSpace c then cur # splitSpaces [] (dropWhile isSpace cs)
      else splitSpaces (cur @ [c]) cs)"
  by pat_completeness auto
termination
  by (relation "measure (\<lambda>(cur, s). length s)")
     (auto simp: le_imp_less_Suc length_dropWhile_le)

fun join :: "jstring \<Rightarrow> jstring list \<Rightarrow> jstring" where
  "join sep [] = []"
| "join sep [x] = x"
| "join sep (x # y # ys) = x @ sep @ join sep (y # ys)"

text \<open>
  The pattern of \<open>syllable.match\<close>, anchored at both ends: a non-empty run of letters
  (a to z, u with diaeresis, v), then at most one
  digit, then the end. Under the flag \<open>i\<close> the class holds the letters of both cases.
\<close>

definition isPinyinLetter :: "nat \<Rightarrow> bool" where
  "isPinyinLetter c \<longleftrightarrow>
     (97 \<le> c \<and> c \<le> 122) \<or> (65 \<le> c \<and> c \<le> 90) \<or> c = 252 \<or> c = 220"

definition matchSyllable :: "jstring \<Rightarrow> (jstring \<times> nat option) option" where
  "matchSyllable syllable =
     (let letters = takeWhile isPinyinLetter syllable;
          rest = dropWhile isPinyinLetter syllable in
      if letters = [] then None
      else (case rest of
              [] \<Rightarrow> Some (letters, None)
            | [dg] \<Rightarrow> if isDigit dg then Some (letters, Some dg) else None
            | _ \<Rightarrow> None))"

text \<open>
  The body of the \<open>map\<close> callback. \<open>letters[vowelIndex]\<close> is \<open>undefined\<close> for an index
  out of range, and calling \<open>toUpperCase\<close> on it throws a \<open>TypeError\<close>.
\<close>

definition convertSyllable :: "jstring \<Rightarrow> error + jstring" where
  "convertSyllable syllable =
     (case matchSyllable syllable of
        None \<Rightarrow> Inr syllable
      | Some (letters, toneNum) \<Rightarrow>
          (case toneNum of
             None \<Rightarrow> Inr letters
           | Some dg \<Rightarrow>
               (let tone = dg - 48 in
                if tone < 1 \<or> tone > 5 then Inr syllable
                else (case getToneVowel letters of
                        None \<Rightarrow> Inr letters
                      | Some vowel \<Rightarrow>
                          (case toneMarks (toLowerCase vowel) of
                             None \<Rightarrow> Inr letters
                           | Some marks \<Rightarrow>
                               (let toneChar = marks ! (tone - 1);
                                    vowelIndex = indexOf (toLowerCase letters) (toLowerCase vowel) in
                                if vowelIndex < 0 \<or> int (length letters) \<le> vowelIndex
                                then Inl TypeError
                                else (let k = nat vowelIndex;
                                          isUpperCase = ([letters ! k] = toUpperCase [letters ! k]);
                                          replacement =
                                            (if isUpperCase then toUpperCase toneChar else toneChar)
                                      in Inr (take k letters @ replacement @ drop (k + 1) letters))))))))"

fun mapResult :: "('a \<Rightarrow> error + 'b) \<Rightarrow> 'a list \<Rightarrow> error + 'b list" where
  "mapResult f [] = Inr []"
| "mapResult f (x # xs) =
     (case f x of
        Inl e \<Rightarrow> Inl e
      | Inr y \<Rightarrow> (case mapResult f xs of Inl e \<Rightarrow> Inl e | Inr ys \<Rightarrow> Inr (y # ys)))"

definition numericToToneMark :: "jstring \<Rightarrow> error + jstring" where
  "numericToToneMark pinyin =
     (case mapResult convertSyllable (splitSpaces [] pinyin) of
        Inl e \<Rightarrow> Inl e
      | Inr syllables \<Rightarrow> Inr (join (js '' '') syllables))"

text \<open>\<open>s.replace(/ab/g, r)\<close> for a two-unit pattern and \<open>s.replace(/a/g, r)\<close> for one unit.\<close>

fun replaceAll2 :: "nat \<Rightarrow> nat \<Rightarrow> jstring \<Rightarrow> jstring \<Rightarrow> jstring" where
  "replaceAll2 a b r (x # y # s) =
     (if x = a \<and> y = b then r @ replaceAll2 a b r s else x # replaceAll2 a b r (y # s))"
| "replaceAll2 a b r s = s"

definition replaceAll1 :: "nat \<Rightarrow> jstring \<Rightarrow> jstring \<Rightarrow> jstring" where
  "replaceAll1 a r s = concat (map (\<lambda>x. if x = a then r else [x]) s)"

definition normalizePinyin :: "jstring \<Rightarrow> jstring" where
  "normalizePinyin pinyin =
     replaceAll1 86 [220] (replaceAll1 118 [252] (replaceAll2 85 58 [220] (replaceAll2 117 58 [252] pinyin)))"

definition parseCedictPinyin :: "jstring \<Rightarrow> error + jstring" where
  "parseCedictPinyin pinyin = numericToToneMark (normalizePinyin pinyin)"


section \<open>Dictionary lookup and segmentation (shared/dictionary.ts)\<close>

text \<open>
  One sense of the CC-CEDICT index: traditional form, simplified form, numeric pinyin and
  glosses (the fields \<open>t\<close>, \<open>s\<close>, \<open>p\<close>, \<open>d\<close>). The index maps a headword to its senses;
  the build script files every sense under its simplified form and, when the two differ,
  under its traditional form as well. A failed load leaves the empty index.
\<close>

record CedictSense =
  sense_t :: jstring
  sense_s :: jstring
  sense_p :: jstring
  sense_d :: "jstring list"

type_synonym CedictData = "jstring \<Rightarrow> CedictSense list option"

record DictionaryEntry =
  traditional :: jstring
  simplified :: jstring
  dict_pinyin :: jstring
  pinyinTones :: jstring
  dict_definitions :: "jstring list"

definition isHanUnit :: "nat \<Rightarrow> bool" where
  "isHanUnit c \<longleftrightarrow> 19968 \<le> c \<and> c \<le> 40959"

definition trim :: "jstring \<Rightarrow> jstring" where
  "trim s = rev (dropWhile isSpace (rev (dropWhile isSpace s)))"

text \<open>
  \<open>normalize('NFC')\<close> is the platform's canonical composition; it is the parameter \<open>nfc\<close>.
  The two \<open>replace\<close> calls delete the leading and the trailing run of code units outside
  U+4E00..U+9FFF.
\<close>

definition normalizeText :: "(jstring \<Rightarrow> jstring) \<Rightarrow> jstring \<Rightarrow> jstring" where
  "normalizeText nfc text =
     nfc (rev (dropWhile (\<lambda>c. \<not> isHanUnit c)
            (rev (dropWhile (\<lambda>c. \<not> isHanUnit c) (trim text)))))"

text \<open>\<open>char.charCodeAt(0)\<close> is \<open>NaN\<close> on the empty string, and both comparisons fail.\<close>

definition isChinese :: "jstring \<Rightarrow> bool" where
  "isChinese char = (case char of [] \<Rightarrow> False | code # _ \<Rightarrow> code \<ge> 19968 \<and> code \<le> 40959)"

definition startsWithAny :: "jstring \<Rightarrow> jstring list \<Rightarrow> bool" where
  "startsWithAny s ps = list_ex (startsWith s) ps"

definition isVariantDefinition :: "jstring \<Rightarrow> bool" where
  "isVariantDefinition def =
     startsWithAny (toLowerCase def)
       [js ''variant of'', js ''see '', js ''old variant'', js ''archaic variant'', js ''same as'']"

text \<open>
  A pattern \<open>\b(p1|...|pn)\b\<close> tested against \<open>s\<close>: some alternative occurs at some index
  with a word boundary on both sides. Under the flag \<open>i\<close> code units are compared after
  canonicalisation, which on the Basic Latin patterns of this module is the upper case of
  a to z (no code unit beyond Basic Latin canonicalises into it).
\<close>

definition canonicalize :: "nat \<Rightarrow> nat" where
  "canonicalize c = (if 97 \<le> c \<and> c \<le> 122 then c - 32 else c)"

definition matchAt :: "(nat \<Rightarrow> nat) \<Rightarrow> jstring \<Rightarrow> nat \<Rightarrow> jstring \<Rightarrow> bool" where
  "matchAt cf s i p \<longleftrightarrow> map cf (take (length p) (drop i s)) = map cf p"

definition testBounded :: "(nat \<Rightarrow> nat) \<Rightarrow> jstring list \<Rightarrow> jstring \<Rightarrow> bool" where
  "testBounded cf ps s =
     list_ex (\<lambda>i. list_ex (\<lambda>p. wordBoundary s i \<and> matchAt cf s i p \<and> wordBoundary s (i + length p)) ps)
       [0 ..< Suc (length s)]"

text \<open>\<open>/^p [a-z]/\<close>: the prefix, then one lower-case letter.\<close>

definition startsWithThenLetter :: "jstring \<Rightarrow> jstring \<Rightarrow> bool" where
  "startsWithThenLetter s p \<longleftrightarrow>
     startsWith s p \<and> length p < length s \<and> 97 \<le> s ! length p \<and> s ! length p \<le> 122"

definition scoreDefinition :: "jstring \<Rightarrow> int" where
  "scoreDefinition def =
     (let lower = toLowerCase def;
          score = 100;
          score = (if isVariantDefinition def then score - 80 else score);
          score = (if testBounded (\<lambda>c. c) [js ''archaic'', js ''literary'', js ''dialect'', js ''old-fashioned''] lower
                   then score - 40 else score);
          score = (if testBounded canonicalize [js ''Taiwan pr.'', js ''also pr.'', js ''Taiwan variant''] def
                   then score - 30 else score);
          score = (if startsWithAny lower [js ''abbr. '', js ''abbr.'', js ''abbreviation'']
                   then score - 25 else score);
          score = (if testBounded (\<lambda>c. c) [js ''euphemism''] lower then score - 20 else score);
          score = (if startsWith lower (js ''lit. '') then score - 15 else score);
          score = (if startsWith lower (js ''fig. '') then score - 10 else score);
          score = (if startsWith def (js ''CL:'') then score - 35 else score);
          score = (if length def < 5 then score - 20 else score);
          score = (if startsWithThenLetter lower (js ''to '') then score + 10 else score);
          score = (if startsWithThenLetter lower (js ''a '') then score + 5 else score);
          score = (if startsWithThenLetter lower (js ''the '') then score + 5 else score)
      in score)"

text \<open>\<open>[...new Set(xs)]\<close>: the elements in the order of their first occurrence.\<close>

fun dedupe :: "'a list \<Rightarrow> 'a list \<Rightarrow> 'a list" where
  "dedupe seen [] = []"
| "dedupe seen (x # xs) =
     (if x \<in> set seen then dedupe seen xs else x # dedupe (seen @ [x]) xs)"

text \<open>
  \<open>Array.prototype.sort\<close> is stable, and the comparator \<open>scoreDefinition(b) - scoreDefinition(a)\<close>
  orders by descending score. \<open>entries[0]\<close> is \<open>undefined\<close> on the empty array.
\<close>

definition selectBestEntry :: "CedictSense list \<Rightarrow> CedictSense option \<times> jstring list" where
  "selectBestEntry entries =
     (let (allDefinitions, bestEntry, bestScore) =
            fold (\<lambda>entry (allDefinitions, bestEntry, bestScore).
                    let realDefs = filter (\<lambda>d. \<not> isVariantDefinition d) (sense_d entry);
                        score = length realDefs;
                        allDefinitions = allDefinitions @ sense_d entry
                    in if score > bestScore then (allDefinitions, Some entry, score)
                       else (allDefinitions, bestEntry, bestScore))
                 entries
                 ([], (case entries of [] \<Rightarrow> None | e # _ \<Rightarrow> Some e), 0);
          sortedDefs = sort_key (\<lambda>d. - scoreDefinition d) (dedupe [] allDefinitions)
      in (bestEntry, if length sortedDefs > 0 then sortedDefs else allDefinitions))"

text \<open>
  The object literal that \<open>lookupWord\<close> and \<open>lookupWithSegmentation\<close> build from the result
  of \<open>selectBestEntry\<close>; reading a field of \<open>undefined\<close> throws.
\<close>

definition dictionaryEntryOf :: "CedictSense option \<times> jstring list \<Rightarrow> error + DictionaryEntry" where
  "dictionaryEntryOf r =
     (case r of
        (None, allDefinitions) \<Rightarrow> Inl TypeError
      | (Some entry, allDefinitions) \<Rightarrow>
          (case parseCedictPinyin (sense_p entry) of
             Inl e \<Rightarrow> Inl e
           | Inr tones \<Rightarrow>
               Inr \<lparr>traditional = sense_t entry, simplified = sense_s entry,
                    dict_pinyin = sense_p entry, pinyinTones = tones, dict_definitions = allDefinitions\<rparr>))"

definition lookupWord :: "(jstring \<Rightarrow> jstring) \<Rightarrow> CedictData \<Rightarrow> jstring \<Rightarrow> error + DictionaryEntry option" where
  "lookupWord nfc cedict text =
     (let normalized = normalizeText nfc text in
      if normalized = [] then Inr None
      else (case cedict normalized of
              None \<Rightarrow> Inr None
            | Some entries \<Rightarrow>
                if length entries > 0
                then (case dictionaryEntryOf (selectBestEntry entries) of
                        Inl e \<Rightarrow> Inl e
                      | Inr entry \<Rightarrow> Inr (Some entry))
                else Inr None))"

text \<open>
  The inner \<open>for\<close> loop of \<open>lookupWithSegmentation\<close> as a search: \<open>len\<close> counts down to 1
  and the first hit leaves the loop.
\<close>

fun probe :: "CedictData \<Rightarrow> jstring \<Rightarrow> nat \<Rightarrow> nat \<Rightarrow> (nat \<times> CedictSense list) option" where
  "probe cedict normalized pos 0 = None"
| "probe cedict normalized pos (Suc k) =
     (let len = Suc k; substr = slice normalized pos (pos + len) in
      case cedict substr of
        None \<Rightarrow> probe cedict normalized pos k
      | Some entries \<Rightarrow>
          if length entries > 0 then Some (len, entries) else probe cedict normalized pos k)"

definition placeholder :: "jstring \<Rightarrow> DictionaryEntry" where
  "placeholder char =
     \<lparr>traditional = char, simplified = char, dict_pinyin = [], pinyinTones = [],
      dict_definitions = [js ''(no definition found)'']\<rparr>"

function segmentLoop :: "CedictData \<Rightarrow> jstring \<Rightarrow> nat \<Rightarrow> DictionaryEntry list \<Rightarrow> error + DictionaryEntry list" where
  "segmentLoop cedict normalized pos results =
     (if pos < length normalized then
        (case probe cedict normalized pos (min 6 (length normalized - pos)) of
           Some (len, entries) \<Rightarrow>
             (case dictionaryEntryOf (selectBestEntry entries) of
                Inl e \<Rightarrow> Inl e
              | Inr entry \<Rightarrow> segmentLoop cedict normalized (pos + len) (results @ [entry]))
         | None \<Rightarrow>
             (let char = [normalized ! pos] in
              if isChinese char
              then segmentLoop cedict normalized (pos + 1) (results @ [placeholder char])
              else segmentLoop cedict normalized (pos + 1) results))
      else Inr results)"
  by pat_completeness auto
termination
proof -
  have hit: "probe c n p k = Some (l, es) \<Longrightarrow> 0 < l" for c n p k l es
    by (induction k) (auto simp: Let_def split: option.splits if_splits)
  show ?thesis
    by (relation "measure (\<lambda>(cedict, normalized, pos, results). length normalized - pos)")
       (auto dest: hit)
qed

declare segmentLoop.simps [simp del]

definition lookupWithSegmentation :: "(jstring \<Rightarrow> jstring) \<Rightarrow> CedictData \<Rightarrow> jstring \<Rightarrow> error + DictionaryEntry list" where
  "lookupWithSegmentation nfc cedict text =
     (let normalized = normalizeText nfc text in
      if normalized = [] then Inr []
      else (case lookupWord nfc cedict normalized of
              Inl e \<Rightarrow> Inl e
            | Inr (Some exactMatch) \<Rightarrow> Inr [exactMatch]
            | Inr None \<Rightarrow> segmentLoop cedict normalized 0 []))"

text \<open>
  \<open>for (const char of s)\<close> walks code points: a high surrogate followed by a low one is
  one step.
\<close>

fun codePoints :: "jstring \<Rightarrow> jstring list" where
  "codePoints (hi # lo # s) =
     (if 55296 \<le> hi \<and> hi \<le> 56319 \<and> 56320 \<le> lo \<and> lo \<le> 57343
      then [hi, lo] # codePoints s else [hi] # codePoints (lo # s))"
| "codePoints [c] = [[c]]"
| "codePoints [] = []"

record CharacterInfo =
  character :: jstring
  radical :: jstring
  radicalMeaning :: "jstring option"
  strokeCount :: int
  components :: "jstring list option"

record UnihanEntry =
  unihan_r :: jstring
  unihan_sc :: int
  unihan_c :: "jstring list option"

definition getCharacterInfo ::
    "(jstring \<Rightarrow> UnihanEntry option) \<Rightarrow> (jstring \<Rightarrow> jstring option) \<Rightarrow> jstring \<Rightarrow> CharacterInfo" where
  "getCharacterInfo unihan radicals char =
     (case unihan char of
        Some data \<Rightarrow>
          \<lparr>character = char, radical = unihan_r data, radicalMeaning = radicals (unihan_r data),
           strokeCount = unihan_sc data, components = unihan_c data\<rparr>
      | None \<Rightarrow>
          \<lparr>character = char, radical = char, radicalMeaning = None, strokeCount = 0,
           components = None\<rparr>)"

record WordSegment =
  seg_word :: jstring
  seg_pinyin :: jstring
  seg_pinyinTones :: jstring
  seg_definitions :: "jstring list"
  seg_characters :: "CharacterInfo list"
  isKnown :: bool
  seg_hskLevel :: "int option"

record LookupResult =
  originalText :: jstring
  fullPinyin :: jstring
  naturalTranslation :: "jstring option"
  segments :: "WordSegment list"
  seenWith :: "(jstring \<times> jstring list) list"

definition performLookup ::
    "(jstring \<Rightarrow> jstring) \<Rightarrow> CedictData \<Rightarrow> (jstring \<Rightarrow> UnihanEntry option) \<Rightarrow> (jstring \<Rightarrow> jstring option)
     \<Rightarrow> (jstring \<Rightarrow> int option) \<Rightarrow> jstring \<Rightarrow> (jstring \<times> jstring list) list \<Rightarrow> (jstring \<Rightarrow> bool)
     \<Rightarrow> error + LookupResult" where
  "performLookup nfc cedict unihan radicals hsk text seenComponents checkKnown =
     (case lookupWithSegmentation nfc cedict text of
        Inl e \<Rightarrow> Inl e
      | Inr entries \<Rightarrow>
          (let normalizedText = normalizeText nfc text;
               segs = map (\<lambda>entry.
                             \<lparr>seg_word = simplified entry, seg_pinyin = dict_pinyin entry,
                              seg_pinyinTones = pinyinTones entry,
                              seg_definitions = dict_definitions entry,
                              seg_characters =
                                map (getCharacterInfo unihan radicals)
                                    (filter isChinese (codePoints (simplified entry))),
                              isKnown = checkKnown (simplified entry),
                              seg_hskLevel = hsk (simplified entry)\<rparr>)
                          entries
           in Inr \<lparr>originalText = normalizedText,
                   fullPinyin = join (js '' '') (map seg_pinyinTones segs),
                   naturalTranslation = None, segments = segs, seenWith = seenComponents\<rparr>))"


section \<open>Numbers and JSON text\<close>

text \<open>
  A Number is an IEEE 754 double. The counters and time stamps of these modules hold
  integers, and the model keeps such a Number as the integer it holds. A sum is rounded as
  the platform rounds it, to the nearest double with ties to the even significand: a
  double has 53 significant bits, so every integer of magnitude up to \<open>2^53\<close> is kept and
  a longer one loses its low bits. The model has no value for \<open>Infinity\<close>, which the
  platform gives for a sum of magnitude \<open>2^1024\<close>; it follows the code below that, and
  adding 1 to a Number never gets there.
\<close>

definition MAX_SAFE_INTEGER :: int where
  "MAX_SAFE_INTEGER = 9007199254740991"

text \<open>\<open>Number.isSafeInteger\<close> on an integer: its magnitude is at most \<open>2^53 - 1\<close>.\<close>

definition isSafeInteger :: "int \<Rightarrow> bool" where
  "isSafeInteger x \<longleftrightarrow> \<bar>x\<bar> \<le> MAX_SAFE_INTEGER"

text \<open>The number of binary digits of \<open>n\<close>.\<close>

fun bitLength :: "nat \<Rightarrow> nat" where
  "bitLength n = (if n = 0 then 0 else Suc (bitLength (n div 2)))"

declare bitLength.simps [simp del]

text \<open>
  The double nearest to the integer \<open>x\<close>: with \<open>e\<close> binary digits beyond the 53 of the
  significand, the magnitude is rounded to a multiple of \<open>2^e\<close>, a tie going to the even
  multiple.
\<close>

definition roundToDouble :: "int \<Rightarrow> int" where
  "roundToDouble x =
     (let a = nat \<bar>x\<bar>;
          e = bitLength a - 53;
          u = 2 ^ e;
          q = a div u;
          r = a mod u;
          m = (if 2 * r < u \<or> (2 * r = u \<and> even q) then q else q + 1)
      in sgn x * int (m * u))"

text \<open>The operator \<open>+\<close> on two Numbers that hold integers.\<close>

definition jsAdd :: "int \<Rightarrow> int \<Rightarrow> int" where
  "jsAdd a b = roundToDouble (a + b)"

text \<open>
  \<open>QuoteJSONString\<close>, which \<open>JSON.stringify\<close> applies to every string and property name:
  the code points of the string between two quotation marks, with the short escapes for
  backspace, tab, line feed, form feed, carriage return, quotation mark and backslash, and
  the escape \<open>\uXXXX\<close> (lower-case digits) for the other code units below U+0020 and for a
  surrogate without its partner.
\<close>

definition hexDigit :: "nat \<Rightarrow> nat" where
  "hexDigit d = (if d < 10 then 48 + d else 87 + d)"

definition unicodeEscape :: "nat \<Rightarrow> jstring" where
  "unicodeEscape c =
     [92, 117, hexDigit (c div 4096 mod 16), hexDigit (c div 256 mod 16),
      hexDigit (c div 16 mod 16), hexDigit (c mod 16)]"

definition isSurrogate :: "nat \<Rightarrow> bool" where
  "isSurrogate c \<longleftrightarrow> 55296 \<le> c \<and> c \<le> 57343"

definition quoteCodeUnit :: "nat \<Rightarrow> jstring" where
  "quoteCodeUnit c =
     (if c = 8 then [92, 98]
      else if c = 9 then [92, 116]
      else if c = 10 then [92, 110]
      else if c = 12 then [92, 102]
      else if c = 13 then [92, 114]
      else if c = 34 then [92, 34]
      else if c = 92 then [92, 92]
      else if c < 32 \<or> isSurrogate c then unicodeEscape c
      else [c])"

text \<open>A code point of two code units is a surrogate pair and is copied.\<close>

definition quoteCodePoint :: "jstring \<Rightarrow> jstring" where
  "quoteCodePoint cp = (case cp of [c] \<Rightarrow> quoteCodeUnit c | _ \<Rightarrow> cp)"

definition quoteJSONString :: "jstring \<Rightarrow> jstring" where
  "quoteJSONString s = [34] @ concat (map quoteCodePoint (codePoints s)) @ [34]"

text \<open>An array of already serialized elements, and an object of already serialized values.\<close>

definition jsonArray :: "jstring list \<Rightarrow> jstring" where
  "jsonArray vs = [91] @ join [44] vs @ [93]"

definition jsonObject :: "(jstring \<times> jstring) list \<Rightarrow> jstring" where
  "jsonObject kvs = [123] @ join [44] (map (\<lambda>(k, v). quoteJSONString k @ [58] @ v) kvs) @ [125]"

text \<open>
  The names every plain object inherits from \<open>Object.prototype\<close>. Indexing a plain object
  with one of them that is not among its own keys answers with the inherited value, not
  with \<open>undefined\<close>.
\<close>

definition objectPrototypeKeys :: "jstring list" where
  "objectPrototypeKeys =
     [js ''constructor'', js ''__defineGetter__'', js ''__defineSetter__'', js ''hasOwnProperty'',
      js ''__lookupGetter__'', js ''__lookupSetter__'', js ''isPrototypeOf'',
      js ''propertyIsEnumerable'', js ''toString'', js ''valueOf'', js ''__proto__'',
      js ''toLocaleString'']"

definition plainKey :: "jstring \<Rightarrow> bool" where
  "plainKey k \<longleftrightarrow> k \<notin> set objectPrototypeKeys"


section \<open>Vocabulary store and replica (shared/storage.ts)\<close>

record ContextEntry =
  sentence :: jstring
  sourceUrl :: jstring
  timestamp :: int

record VocabularyEntry =
  vocab_id :: jstring
  vocab_word :: jstring
  vocab_pinyin :: jstring
  vocab_definitions :: "jstring list"
  lookupCount :: int
  firstSeenAt :: int
  lastSeenAt :: int
  contexts :: "ContextEntry list"
  vocab_characters :: "CharacterInfo list"
  vocab_hskLevel :: "int option"

record SyncedVocabEntry =
  sync_w :: jstring
  sync_p :: jstring
  sync_d :: "jstring list"
  sync_c :: int
  sync_f :: int
  sync_l :: int

text \<open>
  What the module takes from the platform: canonical composition, the text of a Number
  (\<open>Number::toString\<close>, which \<open>JSON.stringify\<close> prints a Number with), and whether
  \<open>chrome.storage.sync.get\<close> and \<open>chrome.storage.sync.set\<close> reject.
\<close>

record platform =
  normalizeNFC :: "jstring \<Rightarrow> jstring"
  numberToString :: "int \<Rightarrow> jstring"
  syncGetFails :: bool
  syncSetFails :: bool

text \<open>
  The state: the object store \<open>vocabulary\<close> of IndexedDB (its key path is \<open>id\<close>, so a
  record is found by its own \<open>id\<close> and \<open>put\<close> replaces the record with that \<open>id\<close>), the
  value under \<open>vocab_sync\<close> in \<open>chrome.storage.sync\<close> (absent at first), and what
  \<open>console.warn\<close> has received.
\<close>

record storage =
  vocabulary :: "VocabularyEntry list"
  syncStorage :: "(jstring \<times> SyncedVocabEntry) list option"
  warnings :: "error list"

definition MAX_CONTEXTS_PER_WORD :: nat where
  "MAX_CONTEXTS_PER_WORD = 5"

definition MAX_SYNCED_DEFINITIONS :: nat where
  "MAX_SYNCED_DEFINITIONS = 3"

definition MAX_SYNCED_DEF_LENGTH :: nat where
  "MAX_SYNCED_DEF_LENGTH = 100"

definition dbGet :: "jstring \<Rightarrow> VocabularyEntry list \<Rightarrow> VocabularyEntry option" where
  "dbGet k vs = find (\<lambda>e. vocab_id e = k) vs"

fun dbPut :: "VocabularyEntry \<Rightarrow> VocabularyEntry list \<Rightarrow> VocabularyEntry list" where
  "dbPut e [] = [e]"
| "dbPut e (x # xs) = (if vocab_id x = vocab_id e then e # xs else x # dbPut e xs)"

definition generateWordId :: "platform \<Rightarrow> jstring \<Rightarrow> jstring" where
  "generateWordId pf word = normalizeNFC pf word"

definition truncateDefinitions :: "jstring list \<Rightarrow> jstring list" where
  "truncateDefinitions ds =
     map (\<lambda>d. if length d > MAX_SYNCED_DEF_LENGTH
               then slice d 0 MAX_SYNCED_DEF_LENGTH @ [226, 8364, 166] else d)
         (take MAX_SYNCED_DEFINITIONS ds)"

definition entryToSyncFormat :: "VocabularyEntry \<Rightarrow> SyncedVocabEntry" where
  "entryToSyncFormat entry =
     \<lparr>sync_w = vocab_word entry, sync_p = vocab_pinyin entry,
      sync_d = truncateDefinitions (vocab_definitions entry),
      sync_c = lookupCount entry, sync_f = firstSeenAt entry, sync_l = lastSeenAt entry\<rparr>"

text \<open>
  The assignment to \<open>syncedData[entry.id]\<close> in \<open>syncToChrome\<close>: the outbound merge with the
  record already in the replica, if there is one. The replica is a plain object, kept as
  the list of its own properties, each key once. This is the assignment for an id that is
  among the own keys or satisfies \<open>plainKey\<close>; for another id the code reads an inherited
  value as the existing record, and the statements about the replica leave such ids out.
\<close>

definition putSynced :: "VocabularyEntry \<Rightarrow> (jstring \<times> SyncedVocabEntry) list \<Rightarrow> (jstring \<times> SyncedVocabEntry) list" where
  "putSynced entry syncedData =
     (let existing = map_of syncedData (vocab_id entry) in
      case existing of
        Some existing \<Rightarrow>
          AList.update (vocab_id entry)
            ((entryToSyncFormat entry)
               \<lparr>sync_c := max (sync_c existing) (lookupCount entry),
                sync_f := min (sync_f existing) (firstSeenAt entry)\<rparr>)
            syncedData
      | None \<Rightarrow> AList.update (vocab_id entry) (entryToSyncFormat entry) syncedData)"

text \<open>
  \<open>JSON.stringify({ [SYNC_KEY]: syncedData })\<close>: every record is an object with the
  properties \<open>w\<close>, \<open>p\<close>, \<open>d\<close>, \<open>c\<close>, \<open>f\<close>, \<open>l\<close>. The code uses the length of this text only,
  which does not depend on the order of the properties.
\<close>

definition SYNC_KEY :: jstring where
  "SYNC_KEY = js ''vocab_sync''"

definition stringifyRecord :: "platform \<Rightarrow> SyncedVocabEntry \<Rightarrow> jstring" where
  "stringifyRecord pf r =
     jsonObject
       [(js ''w'', quoteJSONString (sync_w r)),
        (js ''p'', quoteJSONString (sync_p r)),
        (js ''d'', jsonArray (map quoteJSONString (sync_d r))),
        (js ''c'', numberToString pf (sync_c r)),
        (js ''f'', numberToString pf (sync_f r)),
        (js ''l'', numberToString pf (sync_l r))]"

definition stringifyPayload :: "platform \<Rightarrow> (jstring \<times> SyncedVocabEntry) list \<Rightarrow> jstring" where
  "stringifyPayload pf syncedData =
     jsonObject [(SYNC_KEY, jsonObject (map (\<lambda>(k, r). (k, stringifyRecord pf r)) syncedData))]"

text \<open>The \<open>try\<close> block of \<open>syncToChrome\<close>; \<open>Inl\<close> is a rejection of the storage call.\<close>

definition syncToChromeTry :: "platform \<Rightarrow> VocabularyEntry \<Rightarrow> storage \<Rightarrow> error + storage" where
  "syncToChromeTry pf entry st =
     (if syncGetFails pf then Inl StorageError
      else
        (let syncedData = (case syncStorage st of None \<Rightarrow> [] | Some m \<Rightarrow> m);
             syncedData = putSynced entry syncedData;
             jsonSize = length (stringifyPayload pf syncedData)
         in if jsonSize < 100000
            then (if syncSetFails pf then Inl StorageError
                  else Inr (st\<lparr>syncStorage := Some syncedData\<rparr>))
            else Inr st))"

definition syncToChrome :: "platform \<Rightarrow> VocabularyEntry \<Rightarrow> storage \<Rightarrow> storage" where
  "syncToChrome pf entry st =
     (case syncToChromeTry pf entry st of
        Inr st' \<Rightarrow> st'
      | Inl e \<Rightarrow> st\<lparr>warnings := warnings st @ [e]\<rparr>)"

text \<open>\<open>now\<close> is the value of \<open>Date.now()\<close>; the result is the returned entry and the new state.\<close>

definition saveVocabularyEntry ::
    "platform \<Rightarrow> int \<Rightarrow> jstring \<Rightarrow> jstring \<Rightarrow> jstring list \<Rightarrow> CharacterInfo list
     \<Rightarrow> (jstring \<times> jstring) option \<Rightarrow> storage \<Rightarrow> VocabularyEntry \<times> storage" where
  "saveVocabularyEntry pf now word pinyin definitions characters context st =
     (let ident = generateWordId pf word;
          existing = dbGet ident (vocabulary st);
          entry =
            (case existing of
               Some existing \<Rightarrow>
                 (let entry = existing
                        \<lparr>lookupCount := jsAdd (lookupCount existing) 1,
                         lastSeenAt := now,
                         vocab_definitions :=
                           (if length definitions > 0 then definitions else vocab_definitions existing),
                         vocab_characters :=
                           (if length characters > 0 then characters else vocab_characters existing)\<rparr>
                  in case context of
                       Some (ctxSentence, ctxSourceUrl) \<Rightarrow>
                         if length (contexts entry) < MAX_CONTEXTS_PER_WORD
                         then (let isDuplicate = list_ex (\<lambda>c. sentence c = ctxSentence) (contexts entry) in
                               if \<not> isDuplicate
                               then entry\<lparr>contexts := contexts entry @
                                      [\<lparr>sentence = ctxSentence, sourceUrl = ctxSourceUrl, timestamp = now\<rparr>]\<rparr>
                               else entry)
                         else entry
                     | None \<Rightarrow> entry)
             | None \<Rightarrow>
                 (let ctxs = (case context of
                                Some (ctxSentence, ctxSourceUrl) \<Rightarrow>
                                  [\<lparr>sentence = ctxSentence, sourceUrl = ctxSourceUrl, timestamp = now\<rparr>]
                              | None \<Rightarrow> [])
                  in \<lparr>vocab_id = ident, vocab_word = word, vocab_pinyin = pinyin,
                      vocab_definitions = definitions, lookupCount = 1, firstSeenAt = now,
                      lastSeenAt = now, contexts = ctxs, vocab_characters = characters,
                      vocab_hskLevel = None\<rparr>));
          st = st\<lparr>vocabulary := dbPut entry (vocabulary st)\<rparr>;
          st = syncToChrome pf entry st
      in (entry, st))"

definition getVocabularyEntry :: "platform \<Rightarrow> storage \<Rightarrow> jstring \<Rightarrow> VocabularyEntry option" where
  "getVocabularyEntry pf st word = dbGet (generateWordId pf word) (vocabulary st)"

definition isWordKnown :: "platform \<Rightarrow> storage \<Rightarrow> jstring \<Rightarrow> bool" where
  "isWordKnown pf st word =
     (case getVocabularyEntry pf st word of
        None \<Rightarrow> False
      | Some entry \<Rightarrow> lookupCount entry > 1)"

text \<open>One turn of the loop of \<open>syncFromChrome\<close> over \<open>Object.entries(syncedData)\<close>.\<close>

definition mergeRecord :: "jstring \<times> SyncedVocabEntry \<Rightarrow> VocabularyEntry list \<Rightarrow> VocabularyEntry list" where
  "mergeRecord kv db =
     (case kv of (ident, synced) \<Rightarrow>
        (case dbGet ident db of
           Some existing \<Rightarrow>
             dbPut (existing
                      \<lparr>lookupCount := jsAdd (lookupCount existing) (sync_c synced),
                       firstSeenAt := min (firstSeenAt existing) (sync_f synced),
                       lastSeenAt := max (lastSeenAt existing) (sync_l synced)\<rparr>) db
         | None \<Rightarrow>
             dbPut \<lparr>vocab_id = ident, vocab_word = sync_w synced, vocab_pinyin = sync_p synced,
                    vocab_definitions = sync_d synced, lookupCount = sync_c synced,
                    firstSeenAt = sync_f synced, lastSeenAt = sync_l synced, contexts = [],
                    vocab_characters = [], vocab_hskLevel = None\<rparr> db))"

definition syncFromChrome :: "platform \<Rightarrow> storage \<Rightarrow> storage" where
  "syncFromChrome pf st =
     (if syncGetFails pf then st\<lparr>warnings := warnings st @ [StorageError]\<rparr>
      else
        (let syncedData = (case syncStorage st of None \<Rightarrow> [] | Some m \<Rightarrow> m)
         in st\<lparr>vocabulary := fold mergeRecord syncedData (vocabulary st)\<rparr>))"


section \<open>Background worker (background/service-worker.ts)\<close>

text \<open>
  The listeners of \<open>onInstalled\<close> and \<open>onStartup\<close> both preload the dictionaries and then
  call \<open>syncFromChrome\<close>; only the latter touches the state. \<open>handleLookup\<close> opens with
  \<open>performLookup(text, seenWith, isWordKnown)\<close> on a fresh \<open>seenWith\<close>.
\<close>

datatype event = OnInstalled | OnStartup

fun handleEvent :: "platform \<Rightarrow> event \<Rightarrow> storage \<Rightarrow> storage" where
  "handleEvent pf OnInstalled st = syncFromChrome pf st"
| "handleEvent pf OnStartup st = syncFromChrome pf st"

definition handleLookupResult ::
    "platform \<Rightarrow> CedictData \<Rightarrow> (jstring \<Rightarrow> UnihanEntry option) \<Rightarrow> (jstring \<Rightarrow> jstring option)
     \<Rightarrow> (jstring \<Rightarrow> int option) \<Rightarrow> storage \<Rightarrow> jstring \<Rightarrow> error + LookupResult" where
  "handleLookupResult pf cedict unihan radicals hsk st text =
     performLookup (normalizeNFC pf) cedict unihan radicals hsk text [] (isWordKnown pf st)"


section \<open>The tone-bearing vowel in closed form\<close>

text \<open>The letters i, o, u, u with diaeresis and v, which the last rule of the priority order ranges over.\<close>

definition isToneVowel :: "nat \<Rightarrow> bool" where
  "isToneVowel c \<longleftrightarrow> c = 105 \<or> c = 111 \<or> c = 117 \<or> c = 252 \<or> c = 118"

text \<open>The index of the first occurrence of a code unit (the length of the string if there is none).\<close>

definition firstIndex :: "nat \<Rightarrow> jstring \<Rightarrow> nat" where
  "firstIndex c s = length (takeWhile (\<lambda>x. x \<noteq> c) s)"

text \<open>
  The priority rule in closed form, on the lower-cased letters: a if present, else e, else
  o when the syllable holds the pair ou, else the letter at the rightmost position that
  holds one of i, o, u, u with diaeresis, v.
\<close>

definition ruleVowel :: "jstring \<Rightarrow> nat option" where
  "ruleVowel lower =
     (if 97 \<in> set lower then Some 97
      else if 101 \<in> set lower then Some 101
      else if includesStr lower (js ''ou'') then Some 111
      else if filter isToneVowel lower = [] then None
      else Some (last (filter isToneVowel lower)))"

text \<open>The marked form of the letter \<open>c\<close> as it stands in the syllable, for a tone from 1 to 5.\<close>

definition toneLetter :: "nat \<Rightarrow> nat \<Rightarrow> jstring" where
  "toneLetter c tone =
     (case toneMarks (toLowerCase [c]) of
        None \<Rightarrow> [c]
      | Some marks \<Rightarrow>
          if [c] = toUpperCase [c] then toUpperCase (marks ! (tone - 1)) else marks ! (tone - 1))"

text \<open>
  The syllable with the first occurrence of the letter chosen by the rule replaced by its
  marked form.
\<close>

definition ruleSyllable :: "jstring \<Rightarrow> nat \<Rightarrow> jstring" where
  "ruleSyllable letters tone =
     (case ruleVowel (toLowerCase letters) of
        None \<Rightarrow> letters
      | Some v \<Rightarrow>
          (let k = firstIndex v (toLowerCase letters)
           in take k letters @ toneLetter (letters ! k) tone @ drop (Suc k) letters))"

text \<open>
  The position as the specification words it: the position of a, else of e, else of the
  o of the pair ou, else the rightmost position that holds one of the five letters.
\<close>

definition claimedIndex :: "jstring \<Rightarrow> nat option" where
  "claimedIndex lower =
     (if 97 \<in> set lower then Some (firstIndex 97 lower)
      else if 101 \<in> set lower then Some (firstIndex 101 lower)
      else if includesStr lower (js ''ou'') then Some (nat (indexOf lower (js ''ou'')))
      else if filter isToneVowel lower = [] then None
      else Some (length lower - 1 - length (takeWhile (\<lambda>c. \<not> isToneVowel c) (rev lower))))"

text \<open>The syllable marked at the position the specification names.\<close>

definition claimedSyllable :: "jstring \<Rightarrow> nat \<Rightarrow> jstring" where
  "claimedSyllable letters tone =
     (case claimedIndex (toLowerCase letters) of
        None \<Rightarrow> letters
      | Some k \<Rightarrow> take k letters @ toneLetter (letters ! k) tone @ drop (Suc k) letters)"

text \<open>\<open>toLowerCase\<close> on one letter of a pinyin syllable.\<close>

definition lowerLetter :: "nat \<Rightarrow> nat" where
  "lowerLetter c = (if 65 \<le> c \<and> c \<le> 90 then c + 32 else if c = 220 then 252 else c)"


section \<open>The scan in closed form\<close>

text \<open>A headword with at least one sense: the test \<open>entries && entries.length > 0\<close>.\<close>

definition hit :: "CedictData \<Rightarrow> jstring \<Rightarrow> CedictSense list option" where
  "hit cedict s = (case cedict s of None \<Rightarrow> None | Some entries \<Rightarrow> if entries = [] then None else Some entries)"

text \<open>The lengths \<open>m\<close>, \<open>m - 1\<close>, down to 1.\<close>

definition descending :: "nat \<Rightarrow> nat list" where
  "descending m = rev [1 ..< Suc m]"

text \<open>
  The probe as the specification words it: the first hit among the lengths from
  min(6, remaining) down to 1, which is the longest one.
\<close>

definition specLongest :: "CedictData \<Rightarrow> jstring \<Rightarrow> nat \<Rightarrow> nat option" where
  "specLongest cedict normalized pos =
     find (\<lambda>len. hit cedict (slice normalized pos (pos + len)) \<noteq> None)
          (descending (min 6 (length normalized - pos)))"

text \<open>
  What the scan leaves at a position: a span (a headword, or one Han character without
  a hit) or a skipped code unit.
\<close>

datatype token = Span jstring | Skipped nat

fun tokenText :: "token \<Rightarrow> jstring" where
  "tokenText (Span s) = s"
| "tokenText (Skipped c) = [c]"

fun spans :: "token list \<Rightarrow> jstring list" where
  "spans [] = []"
| "spans (Span s # ts) = s # spans ts"
| "spans (Skipped c # ts) = spans ts"

text \<open>The left-to-right scan of the specification, as the list of its tokens.\<close>

function specScan :: "CedictData \<Rightarrow> jstring \<Rightarrow> nat \<Rightarrow> token list" where
  "specScan cedict normalized pos =
     (if pos < length normalized then
        (case specLongest cedict normalized pos of
           Some len \<Rightarrow> Span (slice normalized pos (pos + len)) # specScan cedict normalized (pos + len)
         | None \<Rightarrow>
             (if isHanUnit (normalized ! pos) then Span [normalized ! pos] else Skipped (normalized ! pos))
             # specScan cedict normalized (pos + 1))
      else [])"
  by pat_completeness auto

termination
proof -
  have pos: "find P (descending m) = Some l \<Longrightarrow> 0 < l" for P m l
    unfolding descending_def by (induction m) (auto split: if_splits)
  show ?thesis
    by (relation "measure (\<lambda>(cedict, normalized, pos). length normalized - pos)")
       (auto simp: specLongest_def dest: pos)
qed

declare specScan.simps [simp del]

text \<open>The entry emitted for a span: that of its senses, or the placeholder.\<close>

definition spanEntry :: "CedictData \<Rightarrow> jstring \<Rightarrow> error + DictionaryEntry" where
  "spanEntry cedict s =
     (case hit cedict s of
        Some entries \<Rightarrow> dictionaryEntryOf (selectBestEntry entries)
      | None \<Rightarrow> Inr (placeholder s))"

text \<open>
  The spans of a normalized input: the whole string when it is a headword, else the
  spans of the scan.
\<close>

definition segmentSpans :: "CedictData \<Rightarrow> jstring \<Rightarrow> jstring list" where
  "segmentSpans cedict normalized =
     (if normalized = [] then []
      else if hit cedict normalized \<noteq> None then [normalized]
      else spans (specScan cedict normalized 0))"

text \<open>The number of definitions of a sense that are not references.\<close>

definition realCount :: "CedictSense \<Rightarrow> nat" where
  "realCount e = length (filter (\<lambda>d. \<not> isVariantDefinition d) (sense_d e))"

text \<open>The body of the loop of \<open>selectBestEntry\<close>, named for the proofs.\<close>

definition bestStep ::
    "CedictSense \<Rightarrow> jstring list \<times> CedictSense option \<times> nat \<Rightarrow> jstring list \<times> CedictSense option \<times> nat" where
  "bestStep = (\<lambda>entry (allDefinitions, bestEntry, bestScore).
                    let realDefs = filter (\<lambda>d. \<not> isVariantDefinition d) (sense_d entry);
                        score = length realDefs;
                        allDefinitions = allDefinitions @ sense_d entry
                    in if score > bestScore then (allDefinitions, Some entry, score)
                       else (allDefinitions, bestEntry, bestScore))"

text \<open>
  Sample data: two senses, an index keyed by simplified forms only, the index the build
  script makes of the same senses (the traditional form is a key as well), and a text.
\<close>

definition senseZhongguo :: CedictSense where
  "senseZhongguo = \<lparr>sense_t = [20013, 22283], sense_s = [20013, 22269], sense_p = js ''Zhong1 guo2'',
                    sense_d = [js ''China'']\<rparr>"

definition senseZhong :: CedictSense where
  "senseZhong = \<lparr>sense_t = [20013], sense_s = [20013], sense_p = js ''zhong1'', sense_d = [js ''middle'']\<rparr>"

definition simplifiedCedict :: CedictData where
  "simplifiedCedict = map_of [([20013, 22269], [senseZhongguo]), ([20013], [senseZhong])]"

definition fullCedict :: CedictData where
  "fullCedict = map_of [([20013, 22269], [senseZhongguo]), ([20013, 22283], [senseZhongguo]),
                        ([20013], [senseZhong])]"

text \<open>A dictionary that files every sense under its simplified form.\<close>

definition keyedBySimplified :: "CedictData \<Rightarrow> bool" where
  "keyedBySimplified cedict \<longleftrightarrow>
     (\<forall>k es sense. cedict k = Some es \<and> sense \<in> set es \<longrightarrow> sense_s sense = k)"

definition sampleText :: jstring where
  "sampleText = [32, 20013, 22269, 65, 20013, 30000, 33]"


section \<open>The relevance score in closed form\<close>

text \<open>
  A marker occurs in \<open>s\<close> as a whole word: \<open>s\<close> splits into a part before, an occurrence
  of the marker (compared through \<open>cf\<close>), and a part after, with no letter, digit or
  underscore next to the occurrence on either side.
\<close>

definition wholeWord :: "(nat \<Rightarrow> nat) \<Rightarrow> jstring \<Rightarrow> jstring \<Rightarrow> bool" where
  "wholeWord cf p s \<longleftrightarrow>
     (\<exists>pre mid post. s = pre @ mid @ post \<and> map cf mid = map cf p
        \<and> (pre = [] \<or> \<not> isWordChar (last pre)) \<and> (post = [] \<or> \<not> isWordChar (hd post)))"

text \<open>Containment without regard to the case of Basic Latin letters.\<close>

definition includesCI :: "jstring \<Rightarrow> jstring \<Rightarrow> bool" where
  "includesCI s p = includesStr (map canonicalize s) (map canonicalize p)"

text \<open>
  The score as one sum: every marker of the list contributes its adjustment once.
  The markers inside the text count as whole words, the prefixes \<open>to\<close>, \<open>a\<close> and \<open>the\<close>
  count when a lower-case letter follows the blank, and all tests but \<open>CL:\<close> and the
  length look at the lower-cased definition.
\<close>

definition amendedScore :: "jstring \<Rightarrow> int" where
  "amendedScore d =
          100
          - (if startsWithAny (toLowerCase d)
                 [js ''variant of'', js ''see '', js ''old variant'', js ''archaic variant'', js ''same as'']
             then 80 else 0)
          - (if \<exists>p \<in> set [js ''archaic'', js ''literary'', js ''dialect'', js ''old-fashioned''].
                  wholeWord (\<lambda>c. c) p (toLowerCase d)
             then 40 else 0)
          - (if wholeWord canonicalize (js ''Taiwan variant'') d then 30 else 0)
          - (if startsWithAny (toLowerCase d) [js ''abbr.'', js ''abbreviation''] then 25 else 0)
          - (if wholeWord (\<lambda>c. c) (js ''euphemism'') (toLowerCase d) then 20 else 0)
          - (if startsWith (toLowerCase d) (js ''lit. '') then 15 else 0)
          - (if startsWith (toLowerCase d) (js ''fig. '') then 10 else 0)
          - (if startsWith d (js ''CL:'') then 35 else 0)
          - (if length d < 5 then 20 else 0)
          + (if startsWithThenLetter (toLowerCase d) (js ''to '') then 10 else 0)
          + (if startsWithThenLetter (toLowerCase d) (js ''a '') \<or> startsWithThenLetter (toLowerCase d) (js ''the '')
             then 5 else 0)"

text \<open>
  The score as the specification words it: plain containment for the markers inside
  the text, plain prefixes for the others.
\<close>

definition claimedScore :: "jstring \<Rightarrow> int" where
  "claimedScore d =
          100
          - (if startsWithAny d
                 [js ''variant of'', js ''see '', js ''old variant'', js ''archaic variant'', js ''same as'']
             then 80 else 0)
          - (if list_ex (includesStr d) [js ''archaic'', js ''literary'', js ''dialect'', js ''old-fashioned'']
             then 40 else 0)
          - (if list_ex (includesStr d) [js ''Taiwan pr.'', js ''also pr.'', js ''Taiwan variant'']
             then 30 else 0)
          - (if startsWithAny d [js ''abbr.'', js ''abbreviation''] then 25 else 0)
          - (if includesStr d (js ''euphemism'') then 20 else 0)
          - (if startsWith d (js ''lit. '') then 15 else 0)
          - (if startsWith d (js ''fig. '') then 10 else 0)
          - (if startsWith d (js ''CL:'') then 35 else 0)
          - (if length d < 5 then 20 else 0)
          + (if startsWith d (js ''to '') then 10 else 0)
          + (if startsWith d (js ''a '') \<or> startsWith d (js ''the '') then 5 else 0)"

text \<open>Two senses of one headword that share a definition.\<close>

definition defGood :: jstring where "defGood = js ''good''"

definition defProper :: jstring where "defProper = js ''appropriate''"

definition defFond :: jstring where "defFond = js ''to be fond of''"

definition senseHao3 :: CedictSense where
  "senseHao3 = \<lparr>sense_t = [22909], sense_s = [22909], sense_p = js ''hao3'', sense_d = [defGood, defProper]\<rparr>"

definition senseHao4 :: CedictSense where
  "senseHao4 = \<lparr>sense_t = [22909], sense_s = [22909], sense_p = js ''hao4'', sense_d = [defFond, defGood]\<rparr>"


section \<open>States of the extension\<close>

text \<open>
  The states the store can be in: a fresh install, then any sequence of saves, inbound
  merges, and changes that other devices make to the replica.
\<close>

inductive reachable :: "storage \<Rightarrow> bool" where
  start: "reachable \<lparr>vocabulary = [], syncStorage = r, warnings = []\<rparr>"
| save: "reachable st \<Longrightarrow> reachable (snd (saveVocabularyEntry pf now word p ds cs ctx st))"
| inbound: "reachable st \<Longrightarrow> reachable (syncFromChrome pf st)"
| remote: "reachable st \<Longrightarrow> reachable (st\<lparr>syncStorage := r\<rparr>)"

text \<open>
  The text of an integer in decimal digits, which is how \<open>Number::toString\<close> prints an
  integer of magnitude below \<open>10^21\<close>.
\<close>

fun digits :: "nat \<Rightarrow> jstring" where
  "digits n = (if n < 10 then [48 + n] else digits (n div 10) @ [48 + n mod 10])"

declare digits.simps [simp del]

definition decimal :: "int \<Rightarrow> jstring" where
  "decimal n = (if n < 0 then 45 # digits (nat (- n)) else digits (nat n))"

text \<open>A platform on which nothing fails, and the state of a fresh install.\<close>

definition pf0 :: platform where
  "pf0 = \<lparr>normalizeNFC = (\<lambda>s. s), numberToString = decimal,
          syncGetFails = False, syncSetFails = False\<rparr>"

definition st0 :: storage where
  "st0 = \<lparr>vocabulary = [], syncStorage = None, warnings = []\<rparr>"

text \<open>Another device's replica arrives, and the inbound merge runs on it.\<close>

definition receive :: "platform \<Rightarrow> (jstring \<times> SyncedVocabEntry) list \<Rightarrow> storage \<Rightarrow> storage" where
  "receive pf m st = syncFromChrome pf (st\<lparr>syncStorage := Some m\<rparr>)"

text \<open>Sample data: a word, two replica records for it, and stores that hold it.\<close>

definition wordZhong :: jstring where "wordZhong = [20013]"

definition recA :: SyncedVocabEntry where
  "recA = \<lparr>sync_w = wordZhong, sync_p = [122, 104, 333, 110, 103], sync_d = [js ''middle''],
           sync_c = 3, sync_f = 1000, sync_l = 5000\<rparr>"

definition recB :: SyncedVocabEntry where
  "recB = \<lparr>sync_w = wordZhong, sync_p = [122, 104, 333, 110, 103], sync_d = [js ''middle''],
           sync_c = 2, sync_f = 2000, sync_l = 4000\<rparr>"

definition stKnown :: storage where
  "stKnown = \<lparr>vocabulary = [\<lparr>vocab_id = wordZhong, vocab_word = wordZhong, vocab_pinyin = [122, 104, 333, 110, 103],
                    vocab_definitions = [js ''middle''], lookupCount = 4,
                    firstSeenAt = 3000, lastSeenAt = 3500, contexts = [],
                    vocab_characters = [], vocab_hskLevel = None\<rparr>],
               syncStorage = Some [(wordZhong, recA)], warnings = []\<rparr>"

definition saveCtx :: "nat \<Rightarrow> storage \<Rightarrow> storage" where
  "saveCtx n st =
     snd (saveVocabularyEntry pf0 (int n) wordZhong [] [] [] (Some ([115, 48 + n], js ''u'')) st)"

definition stFive :: storage where
  "stFive = saveCtx 5 (saveCtx 4 (saveCtx 3 (saveCtx 2 (saveCtx 1 st0))))"



definition stOnce :: storage where
  "stOnce = snd (saveVocabularyEntry pf0 1000 wordZhong [122, 104, 333, 110, 103] [js ''middle''] [] None st0)"

definition longText :: jstring where
  "longText = replicate 100000 97"



definition longWord :: jstring where
  "longWord = replicate 20000 20013"




text \<open>
  A store whose entry has reached the count \<open>2^53\<close>, with a replica record of count 1 for
  the same word.
\<close>

definition recOne :: SyncedVocabEntry where
  "recOne = \<lparr>sync_w = wordZhong, sync_p = [122, 104, 333, 110, 103], sync_d = [js ''middle''],
             sync_c = 1, sync_f = 1000, sync_l = 5000\<rparr>"

definition stLimit :: storage where
  "stLimit = \<lparr>vocabulary = [\<lparr>vocab_id = wordZhong, vocab_word = wordZhong, vocab_pinyin = [122, 104, 333, 110, 103],
                    vocab_definitions = [js ''middle''], lookupCount = 9007199254740992,
                    firstSeenAt = 3000, lastSeenAt = 3500, contexts = [],
                    vocab_characters = [], vocab_hskLevel = None\<rparr>],
               syncStorage = Some [(wordZhong, recOne)], warnings = []\<rparr>"

definition noUnihan :: "jstring \<Rightarrow> UnihanEntry option" where
  "noUnihan c = None"

definition noRadicals :: "jstring \<Rightarrow> jstring option" where
  "noRadicals r = None"

definition noHsk :: "jstring \<Rightarrow> int option" where
  "noHsk w = None"


section \<open>The pinyin renderer follows the priority rule\<close>

lemma includesStr_single: "includesStr s [c] \<longleftrightarrow> c \<in> set s"
  by (induction s) (auto simp: startsWith_def)

lemma indexOf_single:
  "indexOf s [c] = (if c \<in> set s then int (firstIndex c s) else - 1)"
  by (induction s) (auto simp: startsWith_def firstIndex_def Let_def)

lemma lastIndexOf_absent: "c \<notin> set s \<Longrightarrow> lastIndexOf s [c] = - 1"
  by (induction s) (auto simp: startsWith_def Let_def)

lemma lastIndexOf_present:
  "c \<in> set s \<Longrightarrow>
     0 \<le> lastIndexOf s [c] \<and> lastIndexOf s [c] < int (length s)
     \<and> s ! nat (lastIndexOf s [c]) = c
     \<and> (\<forall>j. nat (lastIndexOf s [c]) < j \<and> j < length s \<longrightarrow> s ! j \<noteq> c)"
proof (induction s)
  case Nil
  then show ?case by simp
next
  case (Cons x s)
  show ?case
  proof (cases "c \<in> set s")
    case True
    from Cons.IH [OF True] have ih: "0 \<le> lastIndexOf s [c]" "lastIndexOf s [c] < int (length s)"
      "s ! nat (lastIndexOf s [c]) = c"
      "\<forall>j. nat (lastIndexOf s [c]) < j \<and> j < length s \<longrightarrow> s ! j \<noteq> c" by auto
    have eq: "lastIndexOf (x # s) [c] = lastIndexOf s [c] + 1" using ih(1) by (simp add: Let_def)
    have n: "nat (lastIndexOf s [c] + 1) = Suc (nat (lastIndexOf s [c]))" using ih(1) by simp
    have "\<forall>j. Suc (nat (lastIndexOf s [c])) < j \<and> j < length (x # s) \<longrightarrow> (x # s) ! j \<noteq> c"
    proof (intro allI impI)
      fix j assume j: "Suc (nat (lastIndexOf s [c])) < j \<and> j < length (x # s)"
      then obtain j' where j': "j = Suc j'" by (cases j) auto
      with j ih(4) show "(x # s) ! j \<noteq> c" by simp
    qed
    with ih show ?thesis by (simp add: eq n)
  next
    case False
    with Cons.prems have "x = c" by simp
    with False show ?thesis
      by (auto simp: lastIndexOf_absent startsWith_def Let_def nth_Cons split: nat.splits)
  qed
qed

lemma last_filter_position:
  "filter P s \<noteq> [] \<Longrightarrow>
     \<exists>k < length s. s ! k = last (filter P s) \<and> P (s ! k) \<and> (\<forall>j. k < j \<and> j < length s \<longrightarrow> \<not> P (s ! j))"
proof (induction s rule: rev_induct)
  case Nil
  then show ?case by simp
next
  case (snoc x s)
  show ?case
  proof (cases "P x")
    case True
    then have "(s @ [x]) ! length s = last (filter P (s @ [x])) \<and> P ((s @ [x]) ! length s)
               \<and> (\<forall>j. length s < j \<and> j < length (s @ [x]) \<longrightarrow> \<not> P ((s @ [x]) ! j))"
      by auto
    then show ?thesis by (intro exI [of _ "length s"]) simp
  next
    case False
    with snoc.prems have ne: "filter P s \<noteq> []" by simp
    from snoc.IH [OF ne] obtain k where k: "k < length s" "s ! k = last (filter P s)" "P (s ! k)"
      "\<forall>j. k < j \<and> j < length s \<longrightarrow> \<not> P (s ! j)" by auto
    have "\<forall>j. k < j \<and> j < length (s @ [x]) \<longrightarrow> \<not> P ((s @ [x]) ! j)"
    proof (intro allI impI)
      fix j assume j: "k < j \<and> j < length (s @ [x])"
      show "\<not> P ((s @ [x]) ! j)"
      proof (cases "j < length s")
        case True
        with j k(4) show ?thesis by (simp add: nth_append)
      next
        case False
        with j have "j = length s" by simp
        with \<open>\<not> P x\<close> show ?thesis by simp
      qed
    qed
    with k False show ?thesis
      by (intro exI [of _ k]) (simp add: nth_append)
  qed
qed

lemma rightmost_vowel:
  assumes ne: "filter isToneVowel s \<noteq> []" and v: "isToneVowel v" and vc: "v \<noteq> last (filter isToneVowel s)"
  shows "lastIndexOf s [v] < lastIndexOf s [last (filter isToneVowel s)]"
proof -
  define c where "c = last (filter isToneVowel s)"
  from last_filter_position [OF ne] obtain k where k: "k < length s" "s ! k = c" "isToneVowel (s ! k)"
    "\<forall>j. k < j \<and> j < length s \<longrightarrow> \<not> isToneVowel (s ! j)" by (auto simp: c_def)
  then have cin: "c \<in> set s" by (metis nth_mem)
  from lastIndexOf_present [OF cin] have lc: "0 \<le> lastIndexOf s [c]" "lastIndexOf s [c] < int (length s)"
    "s ! nat (lastIndexOf s [c]) = c" by auto
  have kc: "int k \<le> lastIndexOf s [c]"
  proof (rule ccontr)
    assume "\<not> int k \<le> lastIndexOf s [c]"
    then have "nat (lastIndexOf s [c]) < k" using lc(1) by linarith
    with lastIndexOf_present [OF cin] k(1,2) show False by blast
  qed
  show ?thesis
  proof (cases "v \<in> set s")
    case False
    then show ?thesis using lc(1) by (simp add: lastIndexOf_absent c_def [symmetric])
  next
    case True
    from lastIndexOf_present [OF True] have lv: "0 \<le> lastIndexOf s [v]" "lastIndexOf s [v] < int (length s)"
      "s ! nat (lastIndexOf s [v]) = v" by auto
    have "nat (lastIndexOf s [v]) \<le> k"
    proof (rule ccontr)
      assume "\<not> nat (lastIndexOf s [v]) \<le> k"
      then have "k < nat (lastIndexOf s [v]) \<and> nat (lastIndexOf s [v]) < length s" using lv by linarith
      with k(4) have "\<not> isToneVowel (s ! nat (lastIndexOf s [v]))" by blast
      with lv(3) v show False by simp
    qed
    moreover have "nat (lastIndexOf s [v]) \<noteq> k" using lv(3) k(2) vc by (auto simp: c_def)
    ultimately have "lastIndexOf s [v] < int k" using lv(1) by linarith
    with kc show ?thesis by (simp add: c_def [symmetric])
  qed
qed

lemma no_vowel_lastIndexOf:
  "filter isToneVowel s = [] \<Longrightarrow> isToneVowel v \<Longrightarrow> lastIndexOf s [v] = - 1"
  by (rule lastIndexOf_absent) (auto simp: filter_empty_conv)

lemma last_filter_vowel: "filter isToneVowel s \<noteq> [] \<Longrightarrow> isToneVowel (last (filter isToneVowel s))"
  using last_in_set [of "filter isToneVowel s"] by auto

lemma getToneVowel_rule:
  "getToneVowel syllable = map_option (\<lambda>v. [v]) (ruleVowel (toLowerCase syllable))"
proof -
  define lower where "lower = toLowerCase syllable"
  have a: "includesStr lower (js ''a'') \<longleftrightarrow> 97 \<in> set lower" by (simp add: js_def includesStr_single)
  have e: "includesStr lower (js ''e'') \<longleftrightarrow> 101 \<in> set lower" by (simp add: js_def includesStr_single)
  have scan: "snd (fold (\<lambda>v (lastVowelIndex, lastVowel).
                        let idx = lastIndexOf lower v in
                        if idx > lastVowelIndex then (idx, Some v)
                        else (lastVowelIndex, lastVowel))
                     vowels (- 1, None))
              = (if filter isToneVowel lower = [] then None
                 else Some [last (filter isToneVowel lower)])"
  proof (cases "filter isToneVowel lower = []")
    case True
    have "lastIndexOf lower [v] = - 1" if "isToneVowel v" for v
      using no_vowel_lastIndexOf [OF True that] .
    then have "lastIndexOf lower [105] = - 1" "lastIndexOf lower [111] = - 1" "lastIndexOf lower [117] = - 1"
      "lastIndexOf lower [252] = - 1" "lastIndexOf lower [118] = - 1"
      by (simp_all add: isToneVowel_def)
    with True show ?thesis by (simp add: vowels_def js_def)
  next
    case False
    define c where "c = last (filter isToneVowel lower)"
    have cv: "isToneVowel c" using last_filter_vowel [OF False] by (simp add: c_def)
    have lt: "lastIndexOf lower [v] < lastIndexOf lower [c]" if "isToneVowel v" "v \<noteq> c" for v
      using rightmost_vowel [OF False that(1)] that(2) by (simp add: c_def)
    have "c \<in> set lower" using last_in_set [of "filter isToneVowel lower"] False by (auto simp: c_def)
    from lastIndexOf_present [OF this] have pos: "- 1 < lastIndexOf lower [c]" by simp
    have bounds: "- 1 \<le> lastIndexOf lower [v]" for v
      using lastIndexOf_present [of v lower] lastIndexOf_absent [of v lower] by (cases "v \<in> set lower") auto
    consider "c = 105" | "c = 111" | "c = 117" | "c = 252" | "c = 118"
      using cv by (auto simp: isToneVowel_def)
    then have "snd (fold (\<lambda>v (lastVowelIndex, lastVowel).
                        let idx = lastIndexOf lower v in
                        if idx > lastVowelIndex then (idx, Some v)
                        else (lastVowelIndex, lastVowel))
                     vowels (- 1, None)) = Some [c]"
    proof cases
      case 1
      with lt [of 111] lt [of 117] lt [of 252] lt [of 118] pos
      show ?thesis by (simp add: vowels_def js_def isToneVowel_def Let_def)
    next
      case 2
      with lt [of 105] lt [of 117] lt [of 252] lt [of 118] pos bounds [of 105]
      show ?thesis by (simp add: vowels_def js_def isToneVowel_def Let_def)
    next
      case 3
      with lt [of 105] lt [of 111] lt [of 252] lt [of 118] pos bounds [of 105] bounds [of 111]
      show ?thesis by (simp add: vowels_def js_def isToneVowel_def Let_def)
    next
      case 4
      with lt [of 105] lt [of 111] lt [of 117] lt [of 118] pos bounds [of 105] bounds [of 111] bounds [of 117]
      show ?thesis by (simp add: vowels_def js_def isToneVowel_def Let_def)
    next
      case 5
      with lt [of 105] lt [of 111] lt [of 117] lt [of 252] pos bounds [of 105] bounds [of 111] bounds [of 117] bounds [of 252]
      show ?thesis by (simp add: vowels_def js_def isToneVowel_def Let_def)
    qed
    with False show ?thesis by (simp add: c_def)
  qed
  show ?thesis
    using scan a e unfolding getToneVowel_def ruleVowel_def lower_def [symmetric]
    by (simp add: Let_def js_def)
qed

lemma lowerUnit_letter: "isPinyinLetter c \<Longrightarrow> lowerUnit c = [lowerLetter c]"
  by (auto simp: isPinyinLetter_def lowerUnit_def lowerLetter_def)

lemma toLowerCase_letters: "list_all isPinyinLetter s \<Longrightarrow> toLowerCase s = map lowerLetter s"
  by (induction s) (simp_all add: toLowerCase_def lowerUnit_letter)

lemma digit_not_letter: "isDigit d \<Longrightarrow> \<not> isPinyinLetter d"
  by (auto simp: isDigit_def isPinyinLetter_def)

lemma matchSyllable_letters:
  assumes "letters \<noteq> []" and "list_all isPinyinLetter letters"
  shows "matchSyllable letters = Some (letters, None)"
proof -
  have t: "takeWhile isPinyinLetter letters = letters"
    using assms(2) by (simp add: takeWhile_eq_all_conv list_all_iff)
  have d: "dropWhile isPinyinLetter letters = []"
    using assms(2) by (simp add: list_all_iff)
  show ?thesis using assms(1) by (simp add: matchSyllable_def Let_def t d)
qed

lemma matchSyllable_digit:
  assumes "letters \<noteq> []" and "list_all isPinyinLetter letters" and "isDigit d"
  shows "matchSyllable (letters @ [d]) = Some (letters, Some d)"
proof -
  have all: "\<And>x. x \<in> set letters \<Longrightarrow> isPinyinLetter x" using assms(2) by (simp add: list_all_iff)
  have t: "takeWhile isPinyinLetter (letters @ [d]) = letters"
    using all digit_not_letter [OF assms(3)] by (simp add: takeWhile_append2)
  have dr: "dropWhile isPinyinLetter (letters @ [d]) = [d]"
    using all digit_not_letter [OF assms(3)] by (simp add: dropWhile_append2)
  show ?thesis using assms(1,3) by (simp add: matchSyllable_def Let_def t dr)
qed

lemma includes_ou: "includesStr s (js ''ou'') \<Longrightarrow> 111 \<in> set s"
  by (induction s) (auto simp: startsWith_def js_def split: list.splits)

lemma ruleVowel_Some:
  "ruleVowel lower = Some v \<Longrightarrow>
     v \<in> set lower \<and> (v = 97 \<or> v = 101 \<or> v = 111 \<or> v = 105 \<or> v = 117 \<or> v = 252 \<or> v = 118)"
proof -
  assume r: "ruleVowel lower = Some v"
  show ?thesis
  proof (cases "97 \<in> set lower \<or> 101 \<in> set lower \<or> includesStr lower (js ''ou'')")
    case True
    with r show ?thesis by (auto simp: ruleVowel_def dest: includes_ou split: if_splits)
  next
    case False
    with r have ne: "filter isToneVowel lower \<noteq> []" and v: "v = last (filter isToneVowel lower)"
      by (auto simp: ruleVowel_def split: if_splits)
    from last_in_set [OF ne] v have "v \<in> set lower" "isToneVowel v" by auto
    then show ?thesis by (auto simp: isToneVowel_def)
  qed
qed

lemma firstIndex_less: "c \<in> set s \<Longrightarrow> firstIndex c s < length s \<and> s ! firstIndex c s = c"
  by (induction s) (auto simp: firstIndex_def)

lemma vowel_lower_fixed:
  "v = 97 \<or> v = 101 \<or> v = 111 \<or> v = 105 \<or> v = 117 \<or> v = 252 \<or> v = 118 \<Longrightarrow> toLowerCase [v] = [v]"
  by (elim disjE) (simp_all add: toLowerCase_def lowerUnit_def)

lemma toneMarks_vowel:
  "v = 97 \<or> v = 101 \<or> v = 111 \<or> v = 105 \<or> v = 117 \<or> v = 252 \<or> v = 118 \<Longrightarrow> \<exists>marks. toneMarks [v] = Some marks"
  by (elim disjE) (simp_all add: toneMarks_def js_def)

lemma convert_no_digit:
  "letters \<noteq> [] \<Longrightarrow> list_all isPinyinLetter letters \<Longrightarrow> convertSyllable letters = Inr letters"
  by (simp add: convertSyllable_def matchSyllable_letters)

lemma convert_bad_digit:
  "letters \<noteq> [] \<Longrightarrow> list_all isPinyinLetter letters \<Longrightarrow> isDigit d \<Longrightarrow> \<not> (1 \<le> d - 48 \<and> d - 48 \<le> 5) \<Longrightarrow>
     convertSyllable (letters @ [d]) = Inr (letters @ [d])"
  unfolding convertSyllable_def by (simp add: matchSyllable_digit Let_def not_le not_less)

lemma convertSyllable_marked:
  assumes "matchSyllable s = Some (letters, Some dg)" and "\<not> (dg - 48 < 1 \<or> dg - 48 > 5)"
    and "getToneVowel letters = Some vowel" and "toneMarks (toLowerCase vowel) = Some marks"
    and "indexOf (toLowerCase letters) (toLowerCase vowel) = int k" and "k < length letters"
  shows "convertSyllable s =
           Inr (take k letters @
                (if [letters ! k] = toUpperCase [letters ! k] then toUpperCase (marks ! (dg - 48 - 1))
                 else marks ! (dg - 48 - 1)) @ drop (k + 1) letters)"
  using assms by (simp add: convertSyllable_def Let_def)

lemma convert_tone:
  assumes ne: "letters \<noteq> []" and all: "list_all isPinyinLetter letters" and dg: "isDigit d"
    and tone: "1 \<le> d - 48" "d - 48 \<le> 5"
  shows "convertSyllable (letters @ [d]) = Inr (ruleSyllable letters (d - 48))"
proof (cases "ruleVowel (toLowerCase letters)")
  case None
  then show ?thesis
    using tone unfolding convertSyllable_def matchSyllable_digit [OF ne all dg] Let_def
    by (simp add: getToneVowel_rule ruleSyllable_def)
next
  case (Some v)
  define lower where "lower = toLowerCase letters"
  from ruleVowel_Some [OF Some] have vin: "v \<in> set lower"
    and vv: "v = 97 \<or> v = 101 \<or> v = 111 \<or> v = 105 \<or> v = 117 \<or> v = 252 \<or> v = 118"
    by (simp_all add: lower_def)
  have low: "lower = map lowerLetter letters" by (simp add: lower_def toLowerCase_letters [OF all])
  then have len: "length lower = length letters" by simp
  define k where "k = firstIndex v lower"
  from firstIndex_less [OF vin] have k: "k < length lower" "lower ! k = v" by (simp_all add: k_def)
  have idx: "indexOf lower [v] = int k" using vin by (simp add: indexOf_single k_def)
  from toneMarks_vowel [OF vv] obtain marks where marks: "toneMarks [v] = Some marks" by blast
  have lk: "letters ! k \<in> set letters" using k(1) len by simp
  then have "isPinyinLetter (letters ! k)" using all by (simp add: list_all_iff)
  then have "toLowerCase [letters ! k] = [lowerLetter (letters ! k)]"
    by (simp add: toLowerCase_def lowerUnit_letter)
  also have "lowerLetter (letters ! k) = v" using k low len by simp
  finally have lc: "toLowerCase [letters ! k] = [v]" .
  have tl: "toneLetter (letters ! k) (d - 48) =
              (if [letters ! k] = toUpperCase [letters ! k] then toUpperCase (marks ! (d - 48 - 1))
               else marks ! (d - 48 - 1))"
    by (simp add: toneLetter_def lc marks)
  have rs: "ruleSyllable letters (d - 48) =
              take k letters @ toneLetter (letters ! k) (d - 48) @ drop (Suc k) letters"
    using Some by (simp add: ruleSyllable_def lower_def [symmetric] k_def [symmetric])
  have gv: "getToneVowel letters = Some [v]" using Some by (simp add: getToneVowel_rule)
  have nt: "\<not> (d - 48 < 1 \<or> d - 48 > 5)" using tone by simp
  have tm: "toneMarks (toLowerCase [v]) = Some marks" by (simp add: vowel_lower_fixed [OF vv] marks)
  have ix: "indexOf (toLowerCase letters) (toLowerCase [v]) = int k"
    by (simp add: vowel_lower_fixed [OF vv] lower_def [symmetric] idx)
  have kl: "k < length letters" using k(1) len by simp
  have "convertSyllable (letters @ [d]) =
          Inr (take k letters @
               (if [letters ! k] = toUpperCase [letters ! k] then toUpperCase (marks ! (d - 48 - 1))
                else marks ! (d - 48 - 1)) @ drop (k + 1) letters)"
    by (rule convertSyllable_marked [OF matchSyllable_digit [OF ne all dg] nt gv tm ix kl])
  then show ?thesis by (simp add: rs tl)
qed

lemmas string_defs = js_def startsWith_def slice_def toLowerCase_def lowerUnit_def toUpperCase_def upperUnit_def
  isSpace_def isDigit_def isWordChar_def wordBoundary_def

lemmas pinyin_defs = toneMarks_def vowels_def getToneVowel_def isPinyinLetter_def matchSyllable_def
  convertSyllable_def numericToToneMark_def replaceAll1_def normalizePinyin_def parseCedictPinyin_def

lemma matchSyllable_Some:
  assumes "matchSyllable s = Some (letters, t)"
  shows "letters \<noteq> [] \<and> list_all isPinyinLetter letters
         \<and> (case t of None \<Rightarrow> s = letters | Some d \<Rightarrow> s = letters @ [d] \<and> isDigit d)"
proof -
  define rest where "rest = dropWhile isPinyinLetter s"
  define front where "front = takeWhile isPinyinLetter s"
  have s: "s = front @ rest" by (simp add: front_def rest_def)
  have m: "(if front = [] then None
            else (case rest of
                    [] \<Rightarrow> Some (front, None)
                  | [dg] \<Rightarrow> if isDigit dg then Some (front, Some dg) else None
                  | _ \<Rightarrow> None)) = Some (letters, t)"
    using assms unfolding matchSyllable_def Let_def front_def [symmetric] rest_def [symmetric] .
  then have l: "letters = front" and ne: "front \<noteq> []"
    by (auto split: if_splits list.splits)
  have all: "list_all isPinyinLetter front"
    unfolding front_def list_all_iff using set_takeWhileD by fastforce
  have "case t of None \<Rightarrow> rest = [] | Some d \<Rightarrow> rest = [d] \<and> isDigit d"
    using m by (auto split: if_splits list.splits)
  then have "case t of None \<Rightarrow> s = letters | Some d \<Rightarrow> s = letters @ [d] \<and> isDigit d"
    by (cases t) (simp_all add: s l)
  with ne all l show ?thesis by simp
qed

lemma convertSyllable_total: "\<exists>r. convertSyllable s = Inr r"
proof (cases "matchSyllable s")
  case None
  then show ?thesis by (simp add: convertSyllable_def)
next
  case (Some m)
  obtain letters t where m: "m = (letters, t)" by (cases m)
  from matchSyllable_Some [OF Some [unfolded m]]
  have ne: "letters \<noteq> []" and all: "list_all isPinyinLetter letters"
    and sh: "case t of None \<Rightarrow> s = letters | Some d \<Rightarrow> s = letters @ [d] \<and> isDigit d" by auto
  show ?thesis
  proof (cases t)
    case None
    with sh convert_no_digit [OF ne all] show ?thesis by simp
  next
    case (Some d)
    with sh have s: "s = letters @ [d]" and dg: "isDigit d" by auto
    show ?thesis
    proof (cases "1 \<le> d - 48 \<and> d - 48 \<le> 5")
      case True
      then show ?thesis using convert_tone [OF ne all dg] s by simp
    next
      case False
      then show ?thesis using convert_bad_digit [OF ne all dg] s by simp
    qed
  qed
qed

lemma mapResult_total: "(\<And>x. \<exists>y. f x = Inr y) \<Longrightarrow> \<exists>ys. mapResult f xs = Inr ys"
proof (induction xs)
  case Nil
  show ?case by simp
next
  case (Cons x xs)
  from Cons.prems obtain y where "f x = Inr y" by blast
  moreover from Cons.IH [OF Cons.prems] obtain ys where "mapResult f xs = Inr ys" by blast
  ultimately show ?case by simp
qed

lemma numericToToneMark_total: "\<exists>r. numericToToneMark p = Inr r"
proof -
  from mapResult_total [of convertSyllable "splitSpaces [] p"] convertSyllable_total
  obtain ys where "mapResult convertSyllable (splitSpaces [] p) = Inr ys" by blast
  then show ?thesis by (simp add: numericToToneMark_def)
qed

lemma parseCedictPinyin_total: "\<exists>r. parseCedictPinyin p = Inr r"
  by (simp add: parseCedictPinyin_def numericToToneMark_total)

lemma lowerLetter_cases:
  "isPinyinLetter c \<Longrightarrow> lowerLetter c = v \<Longrightarrow>
     c = v \<or> (65 \<le> c \<and> c \<le> 90 \<and> v = c + 32) \<or> (c = 220 \<and> v = 252)"
  by (simp add: lowerLetter_def split: if_splits)

lemma toneLetter_five:
  "toneLetter 97 5 = [97]" "toneLetter 65 5 = [65]" "toneLetter 101 5 = [101]" "toneLetter 69 5 = [69]"
  "toneLetter 111 5 = [111]" "toneLetter 79 5 = [79]" "toneLetter 105 5 = [105]" "toneLetter 73 5 = [73]"
  "toneLetter 117 5 = [117]" "toneLetter 85 5 = [85]" "toneLetter 252 5 = [252]" "toneLetter 220 5 = [220]"
  by (simp_all add: toneLetter_def string_defs toneMarks_def)

lemma tone_five_bare:
  assumes all: "list_all isPinyinLetter letters" and r: "ruleVowel (toLowerCase letters) = Some v"
    and nv: "v \<noteq> 118"
  shows "ruleSyllable letters 5 = letters"
proof -
  define lower where "lower = toLowerCase letters"
  from ruleVowel_Some [OF r] have vin: "v \<in> set lower"
    and vv: "v = 97 \<or> v = 101 \<or> v = 111 \<or> v = 105 \<or> v = 117 \<or> v = 252 \<or> v = 118"
    by (simp_all add: lower_def)
  have low: "lower = map lowerLetter letters" by (simp add: lower_def toLowerCase_letters [OF all])
  define k where "k = firstIndex v lower"
  from firstIndex_less [OF vin] have kl: "k < length lower" and kv: "lower ! k = v"
    by (simp_all add: k_def)
  from kl have k1: "k < length letters" by (simp add: low)
  with kv have k2: "lowerLetter (letters ! k) = v" by (simp add: low)
  note k = k1 k2
  have "isPinyinLetter (letters ! k)" using k(1) all by (simp add: list_all_iff)
  from lowerLetter_cases [OF this k(2)] vv nv
  have "letters ! k \<in> {97, 65, 101, 69, 111, 79, 105, 73, 117, 85, 252, 220}"
    by (elim disjE) auto
  then have "toneLetter (letters ! k) 5 = [letters ! k]"
    using toneLetter_five by auto
  then have "ruleSyllable letters 5 = take k letters @ [letters ! k] @ drop (Suc k) letters"
    using r by (simp add: ruleSyllable_def lower_def [symmetric] k_def [symmetric])
  also have "\<dots> = letters" using k(1) by (simp add: id_take_nth_drop [symmetric])
  finally show ?thesis .
qed

lemma firstIndex_unique:
  "k < length s \<Longrightarrow> s ! k = c \<Longrightarrow> count_list s c = 1 \<Longrightarrow> firstIndex c s = k"
proof (induction s arbitrary: k)
  case Nil
  then show ?case by simp
next
  case (Cons x s)
  show ?case
  proof (cases "x = c")
    case True
    with Cons.prems(3) have "count_list s c = 0" by simp
    then have "c \<notin> set s" by (simp add: count_list_0_iff)
    with Cons.prems(1,2) True have "k = 0" by (cases k) auto
    with True show ?thesis by (simp add: firstIndex_def)
  next
    case False
    with Cons.prems obtain k' where k': "k = Suc k'" by (cases k) auto
    with Cons.prems False have "firstIndex c s = k'" by (intro Cons.IH) auto
    with False k' show ?thesis by (simp add: firstIndex_def)
  qed
qed

lemma last_position:
  "k < length s \<Longrightarrow> P (s ! k) \<Longrightarrow> (\<forall>j. k < j \<and> j < length s \<longrightarrow> \<not> P (s ! j)) \<Longrightarrow>
     length s - 1 - length (takeWhile (\<lambda>c. \<not> P c) (rev s)) = k"
proof (induction s arbitrary: k rule: rev_induct)
  case Nil
  then show ?case by simp
next
  case (snoc x s)
  show ?case
  proof (cases "k = length s")
    case True
    with snoc.prems(2) show ?thesis by simp
  next
    case False
    with snoc.prems(1) have kl: "k < length s" by simp
    have "\<not> P x" using snoc.prems(3) kl by (auto dest: spec [of _ "length s"])
    moreover have "length s - 1 - length (takeWhile (\<lambda>c. \<not> P c) (rev s)) = k"
    proof (rule snoc.IH [OF kl])
      show "P (s ! k)" using snoc.prems(2) kl by (simp add: nth_append)
      show "\<forall>j. k < j \<and> j < length s \<longrightarrow> \<not> P (s ! j)"
      proof (intro allI impI)
        fix j assume j: "k < j \<and> j < length s"
        then have "k < j \<and> j < length (s @ [x])" by simp
        with snoc.prems(3) have "\<not> P ((s @ [x]) ! j)" by blast
        with j show "\<not> P (s ! j)" by (simp add: nth_append)
      qed
    qed
    moreover have "length (takeWhile (\<lambda>c. \<not> P c) (rev s)) < length s"
    proof -
      have "s ! k \<in> set (rev s)" using kl by simp
      with snoc.prems(2) kl have "\<exists>y \<in> set (rev s). P y" by (auto simp: nth_append)
      then have d: "dropWhile (\<lambda>c. \<not> P c) (rev s) \<noteq> []" by (simp add: dropWhile_eq_Nil_conv)
      have "length (takeWhile (\<lambda>c. \<not> P c) (rev s)) + length (dropWhile (\<lambda>c. \<not> P c) (rev s)) = length (rev s)"
        by (metis length_append takeWhile_dropWhile_id)
      with d show ?thesis by (cases "dropWhile (\<lambda>c. \<not> P c) (rev s)") auto
    qed
    ultimately show ?thesis by simp
  qed
qed

lemma indexOf_includes: "includesStr s p \<Longrightarrow> 0 \<le> indexOf s p"
  by (induction s) (auto simp: Let_def)

lemma ou_index:
  "includesStr s (js ''ou'') \<Longrightarrow> count_list s 111 = 1 \<Longrightarrow> nat (indexOf s (js ''ou'')) = firstIndex 111 s"
proof (induction s)
  case Nil
  then show ?case by (simp add: js_def)
next
  case (Cons x s)
  show ?case
  proof (cases "startsWith (x # s) (js ''ou'')")
    case True
    then have "x = 111" by (simp add: startsWith_def js_def)
    with True show ?thesis by (simp add: firstIndex_def)
  next
    case False
    with Cons.prems(1) have inc: "includesStr s (js ''ou'')" by simp
    then have in_s: "111 \<in> set s" by (rule includes_ou)
    have "x \<noteq> 111"
    proof
      assume "x = 111"
      with Cons.prems(2) have "count_list s 111 = 0" by simp
      with in_s show False by (simp add: count_list_0_iff)
    qed
    with Cons.prems(2) have "count_list s 111 = 1" by simp
    from Cons.IH [OF inc this] have ih: "nat (indexOf s (js ''ou'')) = firstIndex 111 s" .
    from indexOf_includes [OF inc] have "0 \<le> indexOf s (js ''ou'')" .
    with ih False \<open>x \<noteq> 111\<close> show ?thesis by (simp add: Let_def firstIndex_def)
  qed
qed

lemma claimed_agrees:
  assumes r: "ruleVowel lower = Some v" and u: "count_list lower v = 1"
  shows "claimedIndex lower = Some (firstIndex v lower)"
proof (cases "97 \<in> set lower \<or> 101 \<in> set lower")
  case True
  with r show ?thesis by (auto simp: ruleVowel_def claimedIndex_def split: if_splits)
next
  case False
  show ?thesis
  proof (cases "includesStr lower (js ''ou'')")
    case True
    with False r have v: "v = 111" by (simp add: ruleVowel_def)
    with True False u ou_index [OF True] show ?thesis by (simp add: claimedIndex_def)
  next
    case nou: False
    with False r have ne: "filter isToneVowel lower \<noteq> []" and v: "v = last (filter isToneVowel lower)"
      by (auto simp: ruleVowel_def split: if_splits)
    from last_filter_position [OF ne] obtain k where k: "k < length lower" "lower ! k = v"
      "isToneVowel (lower ! k)" "\<forall>j. k < j \<and> j < length lower \<longrightarrow> \<not> isToneVowel (lower ! j)"
      by (auto simp: v)
    have "firstIndex v lower = k" using firstIndex_unique [OF k(1,2) u] .
    moreover have "length lower - 1 - length (takeWhile (\<lambda>c. \<not> isToneVowel c) (rev lower)) = k"
      using last_position [of k lower isToneVowel, OF k(1,3,4)] .
    ultimately show ?thesis using False nou ne by (simp add: claimedIndex_def)
  qed
qed

lemmas rule_defs = ruleSyllable_def ruleVowel_def claimedSyllable_def claimedIndex_def firstIndex_def
  isToneVowel_def toneLetter_def

text \<open>
  Claim C4, as amended. For a syllable of letters with an optional tone digit:
  without a digit the letters come back unchanged; with a digit outside 1 to 5 the whole
  syllable comes back unchanged; with a digit from 1 to 5 the result is the letters
  with the FIRST occurrence of the letter chosen by the priority rule (a, else e, else
  o when ou occurs, else the rightmost of i, o, u, u with diaeresis, v) replaced by its
  marked form, and the letters themselves when they hold no vowel. Tone 5 gives back the
  letters (with v written as u with diaeresis). When the chosen letter occurs once in the
  syllable, the marked position is the one the specification names: the o of ou, or the
  rightmost vowel. The four examples of the specification hold.
\<close>

theorem tone_mark_placement:
  "(letters \<noteq> [] \<and> list_all isPinyinLetter letters \<longrightarrow>
      convertSyllable letters = Inr letters
      \<and> (\<forall>d. isDigit d \<longrightarrow>
            convertSyllable (letters @ [d]) =
              Inr (if 1 \<le> d - 48 \<and> d - 48 \<le> 5 then ruleSyllable letters (d - 48) else letters @ [d]))
      \<and> (\<forall>v. ruleVowel (toLowerCase letters) = Some v \<and> v \<noteq> 118 \<longrightarrow> ruleSyllable letters 5 = letters)
      \<and> (\<forall>v. ruleVowel (toLowerCase letters) = Some v \<and> count_list (toLowerCase letters) v = 1 \<longrightarrow>
            (\<forall>tone. ruleSyllable letters tone = claimedSyllable letters tone)))
   \<and> numericToToneMark (js ''ma1'') = Inr [109, 257]
   \<and> numericToToneMark [110, 252, 51] = Inr [110, 474]
   \<and> numericToToneMark (js ''dui4'') = Inr [100, 117, 236]
   \<and> numericToToneMark (js ''zhong1 guo2'') = Inr [122, 104, 333, 110, 103, 32, 103, 117, 243]"
proof (intro conjI impI allI)
  assume a: "letters \<noteq> [] \<and> list_all isPinyinLetter letters"
  then show "convertSyllable letters = Inr letters" by (simp add: convert_no_digit)
next
  fix d
  assume a: "letters \<noteq> [] \<and> list_all isPinyinLetter letters" and d: "isDigit d"
  show "convertSyllable (letters @ [d]) =
          Inr (if 1 \<le> d - 48 \<and> d - 48 \<le> 5 then ruleSyllable letters (d - 48) else letters @ [d])"
  proof (cases "1 \<le> d - 48 \<and> d - 48 \<le> 5")
    case True
    have "convertSyllable (letters @ [d]) = Inr (ruleSyllable letters (d - 48))"
      using convert_tone [OF _ _ d] a True by simp
    then show ?thesis using True by simp
  next
    case False
    have "convertSyllable (letters @ [d]) = Inr (letters @ [d])"
      using convert_bad_digit [OF _ _ d False] a by simp
    then show ?thesis by (simp only: False if_False)
  qed
next
  fix v
  assume a: "letters \<noteq> [] \<and> list_all isPinyinLetter letters"
    and v: "ruleVowel (toLowerCase letters) = Some v \<and> v \<noteq> 118"
  then show "ruleSyllable letters 5 = letters" using tone_five_bare [of letters v] by simp
next
  fix v tone
  assume v: "ruleVowel (toLowerCase letters) = Some v \<and> count_list (toLowerCase letters) v = 1"
  then have "claimedIndex (toLowerCase letters) = Some (firstIndex v (toLowerCase letters))"
    using claimed_agrees [of "toLowerCase letters" v] by simp
  with v show "ruleSyllable letters tone = claimedSyllable letters tone"
    by (simp add: ruleSyllable_def claimedSyllable_def Let_def)
next
  show "numericToToneMark (js ''ma1'') = Inr [109, 257]"
    by (simp add: string_defs pinyin_defs Let_def)
next
  show "numericToToneMark [110, 252, 51] = Inr [110, 474]"
    by (simp add: string_defs pinyin_defs Let_def)
next
  show "numericToToneMark (js ''dui4'') = Inr [100, 117, 236]"
    by (simp add: string_defs pinyin_defs Let_def)
next
  show "numericToToneMark (js ''zhong1 guo2'') = Inr [122, 104, 333, 110, 103, 32, 103, 117, 243]"
    by (simp add: string_defs pinyin_defs Let_def)
qed

theorem tone_mark_placement_witness:
  "js ''nv'' \<noteq> [] \<and> list_all isPinyinLetter (js ''nv'') \<and> isDigit 53
   \<and> convertSyllable (js ''nv'' @ [53]) = Inr [110, 252]
   \<and> convertSyllable (js ''nv'' @ [54]) = Inr (js ''nv6'')
   \<and> ruleVowel (toLowerCase (js ''guo'')) = Some 111 \<and> count_list (toLowerCase (js ''guo'')) 111 = 1
   \<and> ruleSyllable (js ''guo'') 5 = js ''guo''
   \<and> claimedSyllable (js ''guo'') 2 = [103, 117, 243]"
proof -
  have h: "js ''nv'' \<noteq> [] \<and> list_all isPinyinLetter (js ''nv'')"
    by (simp add: js_def isPinyinLetter_def)
  have g: "js ''guo'' \<noteq> [] \<and> list_all isPinyinLetter (js ''guo'')"
    by (simp add: js_def isPinyinLetter_def)
  have d5: "isDigit 53" and d6: "isDigit 54" by (simp_all add: isDigit_def)
  have rv: "ruleVowel (toLowerCase (js ''guo'')) = Some 111 \<and> (111::nat) \<noteq> 118"
    by (simp add: rule_defs string_defs)
  have cnt: "ruleVowel (toLowerCase (js ''guo'')) = Some 111 \<and> count_list (toLowerCase (js ''guo'')) 111 = 1"
    by (simp add: rule_defs string_defs)
  note t1 = tone_mark_placement [of "js ''nv''", THEN conjunct1, rule_format, OF h]
  note t2 = tone_mark_placement [of "js ''guo''", THEN conjunct1, rule_format, OF g]
  from t1 [THEN conjunct2, THEN conjunct1, rule_format, OF d5]
  have a: "convertSyllable (js ''nv'' @ [53]) = Inr [110, 252]"
    by (simp add: rule_defs string_defs toneMarks_def)
  from t1 [THEN conjunct2, THEN conjunct1, rule_format, OF d6]
  have b: "convertSyllable (js ''nv'' @ [54]) = Inr (js ''nv6'')"
    by (simp add: js_def)
  from t2 [THEN conjunct2, THEN conjunct2, THEN conjunct1, rule_format, OF rv]
  have c: "ruleSyllable (js ''guo'') 5 = js ''guo''" .
  from t2 [THEN conjunct2, THEN conjunct2, THEN conjunct2, rule_format, OF cnt, of 2]
  have e: "claimedSyllable (js ''guo'') 2 = [103, 117, 243]"
    by (simp add: ruleSyllable_def ruleVowel_def firstIndex_def isToneVowel_def toneLetter_def
        string_defs toneMarks_def)
  from h d5 a b cnt c e show ?thesis by simp
qed

text \<open>
  Where claim C4 fails as stated: in \<open>oou1\<close> the mark goes to the first o, not to the o of
  ou, and in \<open>uiu4\<close> to the first u, not to the rightmost vowel.
\<close>

theorem tone_mark_placement_counterexample:
  "convertSyllable (js ''oou1'') = Inr [333, 111, 117]
   \<and> claimedSyllable (js ''oou'') 1 = [111, 333, 117]
   \<and> convertSyllable (js ''uiu4'') = Inr [249, 105, 117]
   \<and> claimedSyllable (js ''uiu'') 4 = [117, 105, 249]"
  by (simp add: rule_defs string_defs pinyin_defs Let_def)


section \<open>Segmentation\<close>

lemma probe_find:
  "probe cedict n pos m =
     (case find (\<lambda>len. hit cedict (slice n pos (pos + len)) \<noteq> None) (descending m) of
        None \<Rightarrow> None
      | Some len \<Rightarrow> map_option (\<lambda>es. (len, es)) (hit cedict (slice n pos (pos + len))))"
proof (induction m)
  case 0
  show ?case by (simp add: descending_def)
next
  case (Suc k)
  have r: "descending (Suc k) = Suc k # descending k" by (simp add: descending_def)
  show ?case
    unfolding r using Suc.IH
    by (auto simp: hit_def Let_def split: option.splits)
qed

lemma find_down_Some:
  "find P (rev [1 ..< Suc m]) = Some l \<longleftrightarrow>
     1 \<le> l \<and> l \<le> m \<and> P l \<and> (\<forall>j. l < j \<and> j \<le> m \<longrightarrow> \<not> P j)"
proof (induction m)
  case 0
  show ?case by auto
next
  case (Suc k)
  have r: "rev [1 ..< Suc (Suc k)] = Suc k # rev [1 ..< Suc k]" by simp
  show ?case
  proof (cases "P (Suc k)")
    case True
    have "l = Suc k \<longleftrightarrow> 1 \<le> l \<and> l \<le> Suc k \<and> P l \<and> (\<forall>j. l < j \<and> j \<le> Suc k \<longrightarrow> \<not> P j)"
    proof
      assume "l = Suc k"
      with True show "1 \<le> l \<and> l \<le> Suc k \<and> P l \<and> (\<forall>j. l < j \<and> j \<le> Suc k \<longrightarrow> \<not> P j)" by auto
    next
      assume a: "1 \<le> l \<and> l \<le> Suc k \<and> P l \<and> (\<forall>j. l < j \<and> j \<le> Suc k \<longrightarrow> \<not> P j)"
      show "l = Suc k"
      proof (rule ccontr)
        assume "l \<noteq> Suc k"
        with a have "l < Suc k \<and> Suc k \<le> Suc k" by simp
        with a True show False by blast
      qed
    qed
    with True show ?thesis unfolding r by auto
  next
    case False
    have "(1 \<le> l \<and> l \<le> k \<and> P l \<and> (\<forall>j. l < j \<and> j \<le> k \<longrightarrow> \<not> P j))
          \<longleftrightarrow> (1 \<le> l \<and> l \<le> Suc k \<and> P l \<and> (\<forall>j. l < j \<and> j \<le> Suc k \<longrightarrow> \<not> P j))"
    proof
      assume a: "1 \<le> l \<and> l \<le> k \<and> P l \<and> (\<forall>j. l < j \<and> j \<le> k \<longrightarrow> \<not> P j)"
      have "\<forall>j. l < j \<and> j \<le> Suc k \<longrightarrow> \<not> P j"
      proof (intro allI impI)
        fix j assume j: "l < j \<and> j \<le> Suc k"
        show "\<not> P j"
        proof (cases "j = Suc k")
          case True
          with False show ?thesis by simp
        next
          case False
          with j have "l < j \<and> j \<le> k" by simp
          with a show ?thesis by blast
        qed
      qed
      with a show "1 \<le> l \<and> l \<le> Suc k \<and> P l \<and> (\<forall>j. l < j \<and> j \<le> Suc k \<longrightarrow> \<not> P j)" by simp
    next
      assume a: "1 \<le> l \<and> l \<le> Suc k \<and> P l \<and> (\<forall>j. l < j \<and> j \<le> Suc k \<longrightarrow> \<not> P j)"
      with False have "l \<noteq> Suc k" by auto
      with a have "l \<le> k" by simp
      moreover from a have "\<forall>j. l < j \<and> j \<le> k \<longrightarrow> \<not> P j" by auto
      ultimately show "1 \<le> l \<and> l \<le> k \<and> P l \<and> (\<forall>j. l < j \<and> j \<le> k \<longrightarrow> \<not> P j)" using a by simp
    qed
    with False Suc.IH show ?thesis unfolding r by simp
  qed
qed

lemma find_down_None:
  "find P (rev [1 ..< Suc m]) = None \<longleftrightarrow> (\<forall>j. 1 \<le> j \<and> j \<le> m \<longrightarrow> \<not> P j)"
proof (induction m)
  case 0
  show ?case by auto
next
  case (Suc k)
  have r: "rev [1 ..< Suc (Suc k)] = Suc k # rev [1 ..< Suc k]" by simp
  have "(\<forall>j. 1 \<le> j \<and> j \<le> Suc k \<longrightarrow> \<not> P j) \<longleftrightarrow> \<not> P (Suc k) \<and> (\<forall>j. 1 \<le> j \<and> j \<le> k \<longrightarrow> \<not> P j)"
    by (auto simp: le_Suc_eq)
  with Suc.IH show ?case unfolding r by auto
qed

lemma specLongest_Some:
  "specLongest cedict n pos = Some len \<longleftrightarrow>
     1 \<le> len \<and> len \<le> min 6 (length n - pos) \<and> hit cedict (slice n pos (pos + len)) \<noteq> None
     \<and> (\<forall>l. len < l \<and> l \<le> min 6 (length n - pos) \<longrightarrow> hit cedict (slice n pos (pos + l)) = None)"
  unfolding specLongest_def descending_def find_down_Some by simp

lemma specLongest_None:
  "specLongest cedict n pos = None \<longleftrightarrow>
     (\<forall>l. 1 \<le> l \<and> l \<le> min 6 (length n - pos) \<longrightarrow> hit cedict (slice n pos (pos + l)) = None)"
  unfolding specLongest_def descending_def find_down_None by simp

lemma bestStep_simp:
  "bestStep e (a, b, c) =
     (if realCount e > c then (a @ sense_d e, Some e, realCount e) else (a @ sense_d e, b, c))"
  by (simp add: bestStep_def realCount_def Let_def)

lemma fold_bestStep:
  "fold bestStep xs (a, b, c) = (a', b', c') \<Longrightarrow>
     a' = a @ concat (map sense_d xs)
     \<and> c \<le> c' \<and> (\<forall>e \<in> set xs. realCount e \<le> c')
     \<and> ((b' = b \<and> c' = c) \<or> (\<exists>e \<in> set xs. b' = Some e \<and> realCount e = c'))"
proof (induction xs arbitrary: a b c)
  case Nil
  then show ?case by simp
next
  case (Cons x xs)
  show ?case
  proof (cases "realCount x > c")
    case True
    with Cons.prems have "fold bestStep xs (a @ sense_d x, Some x, realCount x) = (a', b', c')"
      by (simp add: bestStep_simp)
    from Cons.IH [OF this] True show ?thesis by auto
  next
    case False
    with Cons.prems have "fold bestStep xs (a @ sense_d x, b, c) = (a', b', c')"
      by (simp add: bestStep_simp)
    from Cons.IH [OF this] False show ?thesis by auto
  qed
qed

lemma selectBestEntry_fold:
  "selectBestEntry entries =
     (case fold bestStep entries ([], (case entries of [] \<Rightarrow> None | e # _ \<Rightarrow> Some e), 0) of
        (allDefinitions, bestEntry, bestScore) \<Rightarrow>
          (bestEntry,
           if length (sort_key (\<lambda>d. - scoreDefinition d) (dedupe [] allDefinitions)) > 0
           then sort_key (\<lambda>d. - scoreDefinition d) (dedupe [] allDefinitions) else allDefinitions))"
  unfolding selectBestEntry_def bestStep_def Let_def by (rule refl)

lemma selectBestEntry_best:
  assumes "entries \<noteq> []"
  shows "\<exists>e \<in> set entries. fst (selectBestEntry entries) = Some e
           \<and> (\<forall>x \<in> set entries. realCount x \<le> realCount e)"
proof -
  obtain e0 rest where es: "entries = e0 # rest" using assms by (cases entries) auto
  obtain a' b' c' where f: "fold bestStep entries ([], Some e0, 0) = (a', b', c')"
    by (cases "fold bestStep entries ([], Some e0, 0)") auto
  from fold_bestStep [OF f]
  have le: "\<forall>e \<in> set entries. realCount e \<le> c'"
    and alt: "(b' = Some e0 \<and> c' = 0) \<or> (\<exists>e \<in> set entries. b' = Some e \<and> realCount e = c')" by auto
  have b: "fst (selectBestEntry entries) = b'"
    using f by (simp add: selectBestEntry_fold es)
  from alt show ?thesis
  proof
    assume "b' = Some e0 \<and> c' = 0"
    with le b es show ?thesis by (intro bexI [of _ e0]) auto
  next
    assume "\<exists>e \<in> set entries. b' = Some e \<and> realCount e = c'"
    then obtain e where "e \<in> set entries" "b' = Some e" "realCount e = c'" by blast
    with le b show ?thesis by (intro bexI [of _ e]) auto
  qed
qed

lemma dictionaryEntryOf_hit:
  assumes "entries \<noteq> []"
  shows "\<exists>entry sense. dictionaryEntryOf (selectBestEntry entries) = Inr entry \<and> sense \<in> set entries
           \<and> fst (selectBestEntry entries) = Some sense
           \<and> traditional entry = sense_t sense \<and> simplified entry = sense_s sense
           \<and> dict_pinyin entry = sense_p sense \<and> dict_definitions entry = snd (selectBestEntry entries)"
proof -
  from selectBestEntry_best [OF assms] obtain e where e: "e \<in> set entries" "fst (selectBestEntry entries) = Some e"
    by blast
  obtain tones where t: "parseCedictPinyin (sense_p e) = Inr tones"
    using parseCedictPinyin_total by blast
  obtain ds where r: "selectBestEntry entries = (Some e, ds)" using e(2) by (cases "selectBestEntry entries") auto
  show ?thesis using e t by (simp add: r dictionaryEntryOf_def)
qed

lemma hit_Some: "hit cedict s = Some es \<longleftrightarrow> cedict s = Some es \<and> es \<noteq> []"
  by (auto simp: hit_def split: option.splits)

lemma spanEntry_total: "\<exists>entry. spanEntry cedict s = Inr entry"
proof (cases "hit cedict s")
  case None
  then show ?thesis by (simp add: spanEntry_def)
next
  case (Some es)
  then have "es \<noteq> []" by (simp add: hit_Some)
  from dictionaryEntryOf_hit [OF this] Some show ?thesis by (auto simp: spanEntry_def)
qed

lemma slice_one: "pos < length n \<Longrightarrow> slice n pos (pos + 1) = [n ! pos]"
  by (simp add: slice_def take_Suc_conv_app_nth hd_drop_conv_nth take_Suc)

lemma segmentLoop_spec:
  "\<exists>es. mapResult (spanEntry cedict) (spans (specScan cedict n pos)) = Inr es
        \<and> segmentLoop cedict n pos acc = Inr (acc @ es)"
proof (induction cedict n pos arbitrary: acc rule: specScan.induct)
  case (1 cedict n pos)
  show ?case
  proof (cases "pos < length n")
    case False
    then show ?thesis by (simp add: specScan.simps [of cedict n pos] segmentLoop.simps [of cedict n pos])
  next
    case True
    show ?thesis
    proof (cases "specLongest cedict n pos")
      case None
      then have pr: "probe cedict n pos (min 6 (length n - pos)) = None"
        by (simp add: probe_find specLongest_def)
      from None True have nohit: "hit cedict [n ! pos] = None"
        using slice_one [OF True] by (auto simp: specLongest_None dest!: spec [of _ 1])
      from "1.IH"(1) [OF True None]
      have ih: "\<And>acc. \<exists>es. mapResult (spanEntry cedict) (spans (specScan cedict n (pos + 1))) = Inr es
                  \<and> segmentLoop cedict n (pos + 1) acc = Inr (acc @ es)" by blast
      show ?thesis
      proof (cases "isHanUnit (n ! pos)")
        case han: True
        from ih [of "acc @ [placeholder [n ! pos]]"] obtain es where
          es: "mapResult (spanEntry cedict) (spans (specScan cedict n (pos + 1))) = Inr es"
          "segmentLoop cedict n (pos + 1) (acc @ [placeholder [n ! pos]]) = Inr ((acc @ [placeholder [n ! pos]]) @ es)"
          by blast
        have "isChinese [n ! pos]" using han by (simp add: isChinese_def isHanUnit_def)
        then have "segmentLoop cedict n pos acc = Inr (acc @ placeholder [n ! pos] # es)"
          using True pr es(2) by (simp add: segmentLoop.simps [of cedict n pos acc])
        moreover have "mapResult (spanEntry cedict) (spans (specScan cedict n pos)) = Inr (placeholder [n ! pos] # es)"
          using True None han es(1) nohit by (simp add: specScan.simps [of cedict n pos] spanEntry_def)
        ultimately show ?thesis by blast
      next
        case nohan: False
        from ih [of acc] obtain es where
          es: "mapResult (spanEntry cedict) (spans (specScan cedict n (pos + 1))) = Inr es"
          "segmentLoop cedict n (pos + 1) acc = Inr (acc @ es)"
          by blast
        have "\<not> isChinese [n ! pos]" using nohan by (simp add: isChinese_def isHanUnit_def)
        then have "segmentLoop cedict n pos acc = Inr (acc @ es)"
          using True pr es(2) by (simp add: segmentLoop.simps [of cedict n pos acc])
        moreover have "mapResult (spanEntry cedict) (spans (specScan cedict n pos)) = Inr es"
          using True None nohan es(1) by (simp add: specScan.simps [of cedict n pos])
        ultimately show ?thesis by blast
      qed
    next
      case (Some len)
      then obtain entries where h: "hit cedict (slice n pos (pos + len)) = Some entries"
        by (auto simp: specLongest_Some)
      then have ne: "entries \<noteq> []" by (simp add: hit_Some)
      have pr: "probe cedict n pos (min 6 (length n - pos)) = Some (len, entries)"
        using Some h by (simp add: probe_find specLongest_def)
      from dictionaryEntryOf_hit [OF ne] obtain entry where
        entry: "dictionaryEntryOf (selectBestEntry entries) = Inr entry" by blast
      from "1.IH"(2) [OF True Some, of "acc @ [entry]"] obtain es where
        es: "mapResult (spanEntry cedict) (spans (specScan cedict n (pos + len))) = Inr es"
        "segmentLoop cedict n (pos + len) (acc @ [entry]) = Inr ((acc @ [entry]) @ es)"
        by blast
      have "segmentLoop cedict n pos acc = Inr (acc @ entry # es)"
        using True pr entry es(2) by (simp add: segmentLoop.simps [of cedict n pos acc])
      moreover have "mapResult (spanEntry cedict) (spans (specScan cedict n pos)) = Inr (entry # es)"
        using True Some h entry es(1) by (simp add: specScan.simps [of cedict n pos] spanEntry_def)
      ultimately show ?thesis by blast
    qed
  qed
qed

lemma scan_covers: "concat (map tokenText (specScan cedict n pos)) = drop pos n"
proof (induction cedict n pos rule: specScan.induct)
  case (1 cedict n pos)
  show ?case
  proof (cases "pos < length n")
    case False
    then show ?thesis by (simp add: specScan.simps [of cedict n pos])
  next
    case True
    show ?thesis
    proof (cases "specLongest cedict n pos")
      case None
      have "drop pos n = n ! pos # drop (pos + 1) n" using True by (simp add: Cons_nth_drop_Suc)
      with "1.IH"(1) [OF True None] True None show ?thesis
        by (simp add: specScan.simps [of cedict n pos])
    next
      case (Some len)
      have a: "slice n pos (pos + len) = take len (drop pos n)" by (simp add: slice_def)
      have b: "drop (pos + len) n = drop len (drop pos n)" by (simp add: add.commute)
      have "slice n pos (pos + len) @ drop (pos + len) n = drop pos n"
        unfolding a b by (rule append_take_drop_id)
      with "1.IH"(2) [OF True Some] True Some show ?thesis
        by (simp add: specScan.simps [of cedict n pos])
    qed
  qed
qed

lemma scan_skips_non_han: "Skipped c \<in> set (specScan cedict n pos) \<Longrightarrow> \<not> isHanUnit c"
proof (induction cedict n pos rule: specScan.induct)
  case (1 cedict n pos)
  show ?case
  proof (cases "pos < length n")
    case False
    with "1.prems" show ?thesis by (simp add: specScan.simps [of cedict n pos])
  next
    case True
    show ?thesis
    proof (cases "specLongest cedict n pos")
      case None
      with "1.prems" True "1.IH"(1) [OF True None] show ?thesis
        by (auto simp: specScan.simps [of cedict n pos] split: if_splits)
    next
      case (Some len)
      with "1.prems" True "1.IH"(2) [OF True Some] show ?thesis
        by (auto simp: specScan.simps [of cedict n pos])
    qed
  qed
qed

lemma scan_spans:
  "s \<in> set (spans (specScan cedict n pos)) \<Longrightarrow>
     s \<noteq> [] \<and> length s \<le> 6 \<and> (hit cedict s \<noteq> None \<or> (\<exists>c. s = [c] \<and> isHanUnit c \<and> hit cedict s = None))"
proof (induction cedict n pos rule: specScan.induct)
  case (1 cedict n pos)
  show ?case
  proof (cases "pos < length n")
    case False
    with "1.prems" show ?thesis by (simp add: specScan.simps [of cedict n pos])
  next
    case True
    show ?thesis
    proof (cases "specLongest cedict n pos")
      case None
      from None True have nohit: "hit cedict [n ! pos] = None"
        using slice_one [OF True] by (auto simp: specLongest_None dest!: spec [of _ 1])
      with "1.prems" True None "1.IH"(1) [OF True None] show ?thesis
        by (auto simp: specScan.simps [of cedict n pos] split: if_splits)
    next
      case (Some len)
      then have b: "1 \<le> len" "len \<le> 6" "pos + len \<le> length n"
        "hit cedict (slice n pos (pos + len)) \<noteq> None" by (auto simp: specLongest_Some)
      then have "length (slice n pos (pos + len)) = len" by (simp add: slice_def)
      with b have "slice n pos (pos + len) \<noteq> [] \<and> length (slice n pos (pos + len)) \<le> 6" by auto
      with "1.prems" True Some b(4) "1.IH"(2) [OF True Some] show ?thesis
        by (auto simp: specScan.simps [of cedict n pos])
    qed
  qed
qed

lemma han_of_spans:
  "(\<And>c. Skipped c \<in> set ts \<Longrightarrow> \<not> isHanUnit c) \<Longrightarrow>
     filter isHanUnit (concat (spans ts)) = filter isHanUnit (concat (map tokenText ts))"
proof (induction ts)
  case Nil
  show ?case by simp
next
  case (Cons t ts)
  then have ih: "filter isHanUnit (concat (spans ts)) = filter isHanUnit (concat (map tokenText ts))"
    by simp
  show ?case
  proof (cases t)
    case (Span s)
    with ih show ?thesis by simp
  next
    case (Skipped c)
    with Cons.prems have "\<not> isHanUnit c" by simp
    with ih Skipped show ?thesis by simp
  qed
qed

lemma lookupWord_stable:
  assumes "normalizeText nfc n = n"
  shows "lookupWord nfc cedict n =
           (if n = [] then Inr None
            else case hit cedict n of
                   None \<Rightarrow> Inr None
                 | Some entries \<Rightarrow> map_sum id Some (dictionaryEntryOf (selectBestEntry entries)))"
  by (auto simp: lookupWord_def assms hit_def Let_def split: option.splits sum.splits)

lemma mapResult_simplified:
  assumes keyed: "\<And>k es sense. cedict k = Some es \<Longrightarrow> sense \<in> set es \<Longrightarrow> sense_s sense = k"
  shows "mapResult (spanEntry cedict) ss = Inr es \<Longrightarrow> map simplified es = ss"
proof (induction ss arbitrary: es)
  case Nil
  then show ?case by simp
next
  case (Cons s ss)
  from Cons.prems obtain e es' where e: "spanEntry cedict s = Inr e"
    and es': "mapResult (spanEntry cedict) ss = Inr es'" and es: "es = e # es'"
    by (auto split: sum.splits)
  have "simplified e = s"
  proof (cases "hit cedict s")
    case None
    with e show ?thesis by (auto simp: spanEntry_def placeholder_def)
  next
    case (Some entries)
    then have c: "cedict s = Some entries" and ne: "entries \<noteq> []" by (simp_all add: hit_Some)
    from dictionaryEntryOf_hit [OF ne] obtain entry sense where
      "dictionaryEntryOf (selectBestEntry entries) = Inr entry" "sense \<in> set entries"
      "simplified entry = sense_s sense" by blast
    with e Some keyed [OF c] show ?thesis by (auto simp: spanEntry_def)
  qed
  with Cons.IH [OF es'] es show ?case by simp
qed

text \<open>
  Claim C6. When the whole normalized string is a headword, segmentation returns one
  entry, built from the senses of that headword, whatever else the index holds.
\<close>

theorem whole_string_priority:
  assumes "normalizeText nfc (normalizeText nfc text) = normalizeText nfc text"
    and "normalizeText nfc text \<noteq> []"
    and "cedict (normalizeText nfc text) = Some entries" and "entries \<noteq> []"
  shows "\<exists>entry sense. lookupWithSegmentation nfc cedict text = Inr [entry]
           \<and> dictionaryEntryOf (selectBestEntry entries) = Inr entry
           \<and> sense \<in> set entries \<and> fst (selectBestEntry entries) = Some sense
           \<and> traditional entry = sense_t sense \<and> simplified entry = sense_s sense
           \<and> dict_pinyin entry = sense_p sense
           \<and> dict_definitions entry = snd (selectBestEntry entries)"
proof -
  from dictionaryEntryOf_hit [OF assms(4)] obtain entry sense where
    e: "dictionaryEntryOf (selectBestEntry entries) = Inr entry" "sense \<in> set entries"
    "fst (selectBestEntry entries) = Some sense"
    "traditional entry = sense_t sense" "simplified entry = sense_s sense"
    "dict_pinyin entry = sense_p sense" "dict_definitions entry = snd (selectBestEntry entries)"
    by blast
  have h: "hit cedict (normalizeText nfc text) = Some entries"
    using assms(3,4) by (simp add: hit_Some)
  have "lookupWord nfc cedict (normalizeText nfc text) = Inr (Some entry)"
    using assms(2) by (simp add: lookupWord_stable [OF assms(1)] h e(1))
  then have "lookupWithSegmentation nfc cedict text = Inr [entry]"
    using assms(2) by (simp add: lookupWithSegmentation_def)
  with e show ?thesis by blast
qed

text \<open>
  Claim C1, as amended. Segmentation returns for every input (it terminates and raises
  nothing), provided canonical composition leaves the normalized string as it is. The
  result is the list of the entries of the spans: the whole normalized string when it is
  a headword, else the spans of the left-to-right scan, which at each position takes the
  longest hit among the lengths from min(6, remaining) down to 1, leaves a placeholder
  span for a Han character without a hit, and skips any other code unit. The tokens of
  the scan, spans and skipped code units, concatenate to the normalized input; only
  non-Han code units are skipped, so the spans hold the Han characters of the input once
  each and in order. The word field of an entry is the simplified form of the selected
  sense: it is the span when the index files every sense under its simplified form.
\<close>

theorem segmentation_covers:
  assumes "normalizeText nfc (normalizeText nfc text) = normalizeText nfc text"
  shows "(\<exists>entries. lookupWithSegmentation nfc cedict text = Inr entries
            \<and> mapResult (spanEntry cedict) (segmentSpans cedict (normalizeText nfc text)) = Inr entries
            \<and> (keyedBySimplified cedict \<longrightarrow>
                 map simplified entries = segmentSpans cedict (normalizeText nfc text)))
         \<and> concat (map tokenText (specScan cedict (normalizeText nfc text) 0)) = normalizeText nfc text
         \<and> (\<forall>c. Skipped c \<in> set (specScan cedict (normalizeText nfc text) 0) \<longrightarrow> \<not> isHanUnit c)
         \<and> filter isHanUnit (concat (segmentSpans cedict (normalizeText nfc text)))
             = filter isHanUnit (normalizeText nfc text)
         \<and> (\<forall>s \<in> set (segmentSpans cedict (normalizeText nfc text)).
               s \<noteq> [] \<and> (hit cedict s \<noteq> None \<or> (\<exists>c. s = [c] \<and> isHanUnit c \<and> spanEntry cedict s = Inr (placeholder s))))"
proof -
  define n where "n = normalizeText nfc text"
  have stable: "normalizeText nfc n = n" using assms by (simp add: n_def)
  have cov: "concat (map tokenText (specScan cedict n 0)) = n" by (simp add: scan_covers)
  have skip: "\<forall>c. Skipped c \<in> set (specScan cedict n 0) \<longrightarrow> \<not> isHanUnit c"
    using scan_skips_non_han by blast
  have han: "filter isHanUnit (concat (segmentSpans cedict n)) = filter isHanUnit n"
  proof (cases "n = [] \<or> hit cedict n \<noteq> None")
    case True
    then show ?thesis by (auto simp: segmentSpans_def)
  next
    case False
    then have "segmentSpans cedict n = spans (specScan cedict n 0)" by (simp add: segmentSpans_def)
    then show ?thesis using han_of_spans [of "specScan cedict n 0"] skip cov by simp
  qed
  have sp: "\<forall>s \<in> set (segmentSpans cedict n).
               s \<noteq> [] \<and> (hit cedict s \<noteq> None \<or> (\<exists>c. s = [c] \<and> isHanUnit c \<and> spanEntry cedict s = Inr (placeholder s)))"
  proof
    fix s assume s: "s \<in> set (segmentSpans cedict n)"
    show "s \<noteq> [] \<and> (hit cedict s \<noteq> None \<or> (\<exists>c. s = [c] \<and> isHanUnit c \<and> spanEntry cedict s = Inr (placeholder s)))"
    proof (cases "n = [] \<or> hit cedict n \<noteq> None")
      case True
      with s show ?thesis by (auto simp: segmentSpans_def split: if_splits)
    next
      case False
      with s have "s \<in> set (spans (specScan cedict n 0))" by (simp add: segmentSpans_def)
      from scan_spans [OF this] show ?thesis by (auto simp: spanEntry_def)
    qed
  qed
  have res: "\<exists>entries. lookupWithSegmentation nfc cedict text = Inr entries
            \<and> mapResult (spanEntry cedict) (segmentSpans cedict n) = Inr entries"
  proof (cases "n = []")
    case True
    then show ?thesis by (simp add: lookupWithSegmentation_def n_def [symmetric] segmentSpans_def)
  next
    case ne: False
    show ?thesis
    proof (cases "hit cedict n")
      case None
      then have lw: "lookupWord nfc cedict n = Inr None" using ne by (simp add: lookupWord_stable [OF stable])
      from segmentLoop_spec [of cedict n 0 "[]"] obtain es where
        "mapResult (spanEntry cedict) (spans (specScan cedict n 0)) = Inr es"
        "segmentLoop cedict n 0 [] = Inr es" by auto
      with lw ne None show ?thesis
        by (simp add: lookupWithSegmentation_def n_def [symmetric] segmentSpans_def)
    next
      case (Some entries)
      then have "entries \<noteq> []" by (simp add: hit_Some)
      from dictionaryEntryOf_hit [OF this] obtain entry where
        e: "dictionaryEntryOf (selectBestEntry entries) = Inr entry" by blast
      then have lw: "lookupWord nfc cedict n = Inr (Some entry)"
        using ne Some by (simp add: lookupWord_stable [OF stable])
      with ne Some e show ?thesis
        by (simp add: lookupWithSegmentation_def n_def [symmetric] segmentSpans_def spanEntry_def)
    qed
  qed
  then obtain entries where r: "lookupWithSegmentation nfc cedict text = Inr entries"
    "mapResult (spanEntry cedict) (segmentSpans cedict n) = Inr entries" by blast
  have keyed: "keyedBySimplified cedict \<longrightarrow> map simplified entries = segmentSpans cedict n"
  proof
    assume "keyedBySimplified cedict"
    then have k: "\<forall>k es sense. cedict k = Some es \<and> sense \<in> set es \<longrightarrow> sense_s sense = k"
      by (simp only: keyedBySimplified_def)
    show "map simplified entries = segmentSpans cedict n"
      by (rule mapResult_simplified [OF _ r(2)]) (use k in blast)
  qed
  from r keyed cov skip han sp show ?thesis unfolding n_def [symmetric] by blast
qed

lemmas dictionary_defs = isHanUnit_def trim_def normalizeText_def isChinese_def startsWithAny_def
  isVariantDefinition_def selectBestEntry_def dictionaryEntryOf_def lookupWord_def placeholder_def
  lookupWithSegmentation_def segmentLoop.simps

lemmas sample_defs = senseZhongguo_def senseZhong_def simplifiedCedict_def fullCedict_def sampleText_def

lemma sample_normalized: "normalizeText (\<lambda>s. s) sampleText = [20013, 22269, 65, 20013, 30000]"
  by (simp add: sampleText_def normalizeText_def trim_def isSpace_def isHanUnit_def)

lemma sample_segments:
  "map_sum id (map simplified) (lookupWithSegmentation (\<lambda>s. s) simplifiedCedict sampleText)
     = Inr [[20013, 22269], [20013], [30000]]"
  by (simp add: string_defs pinyin_defs dictionary_defs sample_defs Let_def)

theorem segmentation_covers_witness:
  "normalizeText (\<lambda>s. s) (normalizeText (\<lambda>s. s) sampleText) = normalizeText (\<lambda>s. s) sampleText
   \<and> keyedBySimplified simplifiedCedict
   \<and> segmentSpans simplifiedCedict (normalizeText (\<lambda>s. s) sampleText) = [[20013, 22269], [20013], [30000]]
   \<and> filter isHanUnit (concat (segmentSpans simplifiedCedict (normalizeText (\<lambda>s. s) sampleText)))
       = filter isHanUnit (normalizeText (\<lambda>s. s) sampleText)"
proof -
  have stable: "normalizeText (\<lambda>s. s) (normalizeText (\<lambda>s. s) sampleText) = normalizeText (\<lambda>s. s) sampleText"
    by (simp add: sample_normalized) (simp add: normalizeText_def trim_def isSpace_def isHanUnit_def)
  have keyed: "keyedBySimplified simplifiedCedict"
    unfolding keyedBySimplified_def by (auto simp: sample_defs split: if_splits)
  note t = segmentation_covers [OF stable, of simplifiedCedict]
  from t obtain entries where
    e: "lookupWithSegmentation (\<lambda>s. s) simplifiedCedict sampleText = Inr entries"
    "keyedBySimplified simplifiedCedict \<longrightarrow>
       map simplified entries = segmentSpans simplifiedCedict (normalizeText (\<lambda>s. s) sampleText)"
    by blast
  from e(1) sample_segments have "map simplified entries = [[20013, 22269], [20013], [30000]]" by simp
  with e(2) keyed have sp: "segmentSpans simplifiedCedict (normalizeText (\<lambda>s. s) sampleText)
                          = [[20013, 22269], [20013], [30000]]" by simp
  from t have "filter isHanUnit (concat (segmentSpans simplifiedCedict (normalizeText (\<lambda>s. s) sampleText)))
       = filter isHanUnit (normalizeText (\<lambda>s. s) sampleText)" by blast
  with stable keyed sp show ?thesis by blast
qed

text \<open>
  Where claim C1 fails as stated: for a traditional-form key the word field is the
  simplified form of the sense, not the span of the input.
\<close>

theorem segmentation_covers_counterexample:
  "normalizeText (\<lambda>s. s) [20013, 22283] = [20013, 22283]
   \<and> map_sum id (map simplified) (lookupWithSegmentation (\<lambda>s. s) fullCedict [20013, 22283])
       = Inr [[20013, 22269]]
   \<and> normalizeText (\<lambda>s. s) [20013, 22283, 20013] = [20013, 22283, 20013]
   \<and> map_sum id (map simplified) (lookupWithSegmentation (\<lambda>s. s) fullCedict [20013, 22283, 20013])
       = Inr [[20013, 22269], [20013]]"
  by (simp add: string_defs pinyin_defs dictionary_defs sample_defs Let_def)

theorem whole_string_priority_witness:
  "normalizeText (\<lambda>s. s) (normalizeText (\<lambda>s. s) [32, 20013, 22269, 33]) = normalizeText (\<lambda>s. s) [32, 20013, 22269, 33]
   \<and> normalizeText (\<lambda>s. s) [32, 20013, 22269, 33] = [20013, 22269]
   \<and> fullCedict [20013, 22269] = Some [senseZhongguo] \<and> fullCedict [20013] = Some [senseZhong]
   \<and> map_sum id (map simplified) (lookupWithSegmentation (\<lambda>s. s) fullCedict [32, 20013, 22269, 33])
       = Inr [[20013, 22269]]"
proof -
  have n: "normalizeText (\<lambda>s. s) [32, 20013, 22269, 33] = [20013, 22269]"
    by (simp add: normalizeText_def trim_def isSpace_def isHanUnit_def)
  have stable: "normalizeText (\<lambda>s. s) (normalizeText (\<lambda>s. s) [32, 20013, 22269, 33])
                  = normalizeText (\<lambda>s. s) [32, 20013, 22269, 33]"
    by (simp add: n) (simp add: normalizeText_def trim_def isSpace_def isHanUnit_def)
  have ne: "normalizeText (\<lambda>s. s) [32, 20013, 22269, 33] \<noteq> []" by (simp add: n)
  have c: "fullCedict (normalizeText (\<lambda>s. s) [32, 20013, 22269, 33]) = Some [senseZhongguo]"
    by (simp add: n fullCedict_def)
  have c1: "fullCedict [20013] = Some [senseZhong]" by (simp add: fullCedict_def)
  have ne2: "[senseZhongguo] \<noteq> []" by simp
  from whole_string_priority [of "\<lambda>s. s" "[32, 20013, 22269, 33]" fullCedict "[senseZhongguo]",
      OF stable ne c ne2] obtain entry sense where
    "lookupWithSegmentation (\<lambda>s. s) fullCedict [32, 20013, 22269, 33] = Inr [entry]"
    "sense \<in> set [senseZhongguo]" "simplified entry = sense_s sense" by auto
  then have "map_sum id (map simplified) (lookupWithSegmentation (\<lambda>s. s) fullCedict [32, 20013, 22269, 33])
       = Inr [[20013, 22269]]" by (simp add: senseZhongguo_def)
  with stable n c c1 show ?thesis by simp
qed


section \<open>Ranking of definitions\<close>

lemma if_minus: "(if c then s - k else s) = s - (if c then k else (0::int))"
  by simp

lemma if_plus: "(if c then s + k else s) = s + (if c then k else (0::int))"
  by simp

lemma scoreDefinition_sum:
  "scoreDefinition d =
     100
     - (if isVariantDefinition d then 80 else 0)
     - (if testBounded (\<lambda>c. c) [js ''archaic'', js ''literary'', js ''dialect'', js ''old-fashioned''] (toLowerCase d)
        then 40 else 0)
     - (if testBounded canonicalize [js ''Taiwan pr.'', js ''also pr.'', js ''Taiwan variant''] d then 30 else 0)
     - (if startsWithAny (toLowerCase d) [js ''abbr. '', js ''abbr.'', js ''abbreviation''] then 25 else 0)
     - (if testBounded (\<lambda>c. c) [js ''euphemism''] (toLowerCase d) then 20 else 0)
     - (if startsWith (toLowerCase d) (js ''lit. '') then 15 else 0)
     - (if startsWith (toLowerCase d) (js ''fig. '') then 10 else 0)
     - (if startsWith d (js ''CL:'') then 35 else 0)
     - (if length d < 5 then 20 else 0)
     + (if startsWithThenLetter (toLowerCase d) (js ''to '') then 10 else 0)
     + (if startsWithThenLetter (toLowerCase d) (js ''a '') then 5 else 0)
     + (if startsWithThenLetter (toLowerCase d) (js ''the '') then 5 else 0)"
  unfolding scoreDefinition_def Let_def
  by (simp only: if_minus if_plus)

lemma testBounded_iff:
  "testBounded cf ps s \<longleftrightarrow>
     (\<exists>p \<in> set ps. \<exists>i \<le> length s. wordBoundary s i \<and> matchAt cf s i p \<and> wordBoundary s (i + length p))"
  unfolding testBounded_def list_ex_iff
  by (simp only: set_upt Bex_def atLeastLessThan_iff less_Suc_eq_le) blast

lemma wordChar_of_map:
  assumes cfw: "\<And>c. isWordChar (cf c) = isWordChar c" and m: "map cf mid = map cf p" and ne: "p \<noteq> []"
  shows "isWordChar (hd mid) = isWordChar (hd p)" and "isWordChar (last mid) = isWordChar (last p)"
proof -
  have mne: "mid \<noteq> []" using m ne by auto
  have "cf (hd mid) = cf (hd p)" using m mne ne by (metis hd_map)
  then show "isWordChar (hd mid) = isWordChar (hd p)" using cfw by metis
  have "cf (last mid) = cf (last p)" using m mne ne by (metis last_map)
  then show "isWordChar (last mid) = isWordChar (last p)" using cfw by metis
qed

lemma nth_pre_last: "pre \<noteq> [] \<Longrightarrow> (pre @ rest) ! (length pre - 1) = last pre"
  by (simp add: nth_append last_conv_nth)

lemma nth_mid_hd: "mid \<noteq> [] \<Longrightarrow> (pre @ mid @ post) ! length pre = hd mid"
  by (simp add: nth_append hd_conv_nth)

lemma nth_mid_last: "mid \<noteq> [] \<Longrightarrow> (pre @ mid @ post) ! (length pre + length mid - 1) = last mid"
proof -
  assume m: "mid \<noteq> []"
  then have "length pre + length mid - 1 = length pre + (length mid - 1)" by (cases mid) simp_all
  then have "(pre @ mid @ post) ! (length pre + length mid - 1) = (mid @ post) ! (length mid - 1)"
    by (metis nth_append_length_plus)
  also have "\<dots> = last mid" using m by (simp add: nth_append last_conv_nth)
  finally show ?thesis .
qed

lemma nth_post_hd: "post \<noteq> [] \<Longrightarrow> (pre @ mid @ post) ! (length pre + length mid) = hd post"
proof -
  assume p: "post \<noteq> []"
  have "(pre @ mid @ post) ! (length pre + length mid) = (mid @ post) ! length mid"
    by (metis nth_append_length_plus)
  also have "\<dots> = hd post" using p by (simp add: nth_append hd_conv_nth)
  finally show ?thesis .
qed

lemma boundary_before:
  assumes "mid \<noteq> []" and "isWordChar (hd mid)"
  shows "wordBoundary (pre @ mid @ post) (length pre) \<longleftrightarrow> pre = [] \<or> \<not> isWordChar (last pre)"
proof (cases "pre = []")
  case True
  with assms show ?thesis using nth_mid_hd [OF assms(1), of "[]" post] by (simp add: wordBoundary_def)
next
  case False
  then have "0 < length pre" by simp
  with assms False nth_pre_last [OF False, of "mid @ post"] nth_mid_hd [OF assms(1), of pre post]
  show ?thesis by (simp add: wordBoundary_def)
qed

lemma boundary_after:
  assumes "mid \<noteq> []" and "isWordChar (last mid)"
  shows "wordBoundary (pre @ mid @ post) (length pre + length mid) \<longleftrightarrow> post = [] \<or> \<not> isWordChar (hd post)"
proof (cases "post = []")
  case True
  from assms(1) have "0 < length pre + length mid" by simp
  with True assms nth_mid_last [OF assms(1), of pre "[]"] show ?thesis by (simp add: wordBoundary_def)
next
  case False
  from assms(1) have "0 < length pre + length mid" by simp
  with False assms nth_mid_last [OF assms(1), of pre post] nth_post_hd [OF False, of pre mid]
  show ?thesis by (simp add: wordBoundary_def)
qed

lemma bounded_match_wholeWord:
  assumes ne: "p \<noteq> []" and hw: "isWordChar (hd p)" and lw: "isWordChar (last p)"
    and cfw: "\<And>c. isWordChar (cf c) = isWordChar c"
  shows "(\<exists>i \<le> length s. wordBoundary s i \<and> matchAt cf s i p \<and> wordBoundary s (i + length p))
           \<longleftrightarrow> wholeWord cf p s"
proof
  assume "\<exists>i \<le> length s. wordBoundary s i \<and> matchAt cf s i p \<and> wordBoundary s (i + length p)"
  then obtain i where i: "i \<le> length s" "wordBoundary s i" "matchAt cf s i p"
    "wordBoundary s (i + length p)" by blast
  define mid where "mid = take (length p) (drop i s)"
  define pre where "pre = take i s"
  define post where "post = drop (i + length p) s"
  have m: "map cf mid = map cf p" using i(3) by (simp add: matchAt_def mid_def)
  then have lm: "length mid = length p" by (metis length_map)
  have "pre @ mid @ post = take i s @ (take (length p) (drop i s) @ drop (length p) (drop i s))"
    by (simp add: pre_def mid_def post_def add.commute)
  also have "\<dots> = take i s @ drop i s" by (simp only: append_take_drop_id)
  also have "\<dots> = s" by simp
  finally have s: "s = pre @ mid @ post" by (rule sym)
  have lpre: "i = length pre" using i(1) by (simp add: pre_def)
  have mne: "mid \<noteq> []" using lm ne by auto
  have w1: "isWordChar (hd mid)" using wordChar_of_map(1) [OF cfw m ne] hw by simp
  have w2: "isWordChar (last mid)" using wordChar_of_map(2) [OF cfw m ne] lw by simp
  have a: "pre = [] \<or> \<not> isWordChar (last pre)"
    using i(2) boundary_before [OF mne w1, of pre post] unfolding s lpre by simp
  have b: "post = [] \<or> \<not> isWordChar (hd post)"
    using i(4) boundary_after [OF mne w2, of pre post] unfolding s lpre lm [symmetric] by simp
  from s m a b show "wholeWord cf p s" unfolding wholeWord_def by blast
next
  assume "wholeWord cf p s"
  then obtain pre mid post where s: "s = pre @ mid @ post" and m: "map cf mid = map cf p"
    and a: "pre = [] \<or> \<not> isWordChar (last pre)" and b: "post = [] \<or> \<not> isWordChar (hd post)"
    unfolding wholeWord_def by blast
  have lm: "length mid = length p" using m by (metis length_map)
  have mne: "mid \<noteq> []" using lm ne by auto
  have w1: "isWordChar (hd mid)" using wordChar_of_map(1) [OF cfw m ne] hw by simp
  have w2: "isWordChar (last mid)" using wordChar_of_map(2) [OF cfw m ne] lw by simp
  have il: "length pre \<le> length s" by (simp add: s)
  have ma: "matchAt cf s (length pre) p" using m lm by (simp add: matchAt_def s)
  have wb1: "wordBoundary s (length pre)"
    using a boundary_before [OF mne w1, of pre post] unfolding s by simp
  have wb2: "wordBoundary s (length pre + length p)"
    using b boundary_after [OF mne w2, of pre post] unfolding s lm [symmetric] by simp
  from il wb1 ma wb2 show "\<exists>i \<le> length s. wordBoundary s i \<and> matchAt cf s i p \<and> wordBoundary s (i + length p)"
    by blast
qed

lemma testBounded_words:
  assumes "\<And>p. p \<in> set ps \<Longrightarrow> p \<noteq> [] \<and> isWordChar (hd p) \<and> isWordChar (last p)"
    and cfw: "\<And>c. isWordChar (cf c) = isWordChar c"
  shows "testBounded cf ps s \<longleftrightarrow> (\<exists>p \<in> set ps. wholeWord cf p s)"
proof -
  have "(\<exists>i \<le> length s. wordBoundary s i \<and> matchAt cf s i p \<and> wordBoundary s (i + length p))
          \<longleftrightarrow> wholeWord cf p s" if "p \<in> set ps" for p
    using assms(1) [OF that] bounded_match_wholeWord [of p cf s] cfw by blast
  then show ?thesis unfolding testBounded_iff by blast
qed

lemma canonicalize_wordChar: "isWordChar (canonicalize c) = isWordChar c"
proof (cases "97 \<le> c \<and> c \<le> 122")
  case True
  then have "65 \<le> c - 32 \<and> c - 32 \<le> 90" by arith
  with True show ?thesis by (simp add: canonicalize_def isWordChar_def)
next
  case False
  then show ?thesis by (auto simp: canonicalize_def)
qed

lemma startsWith_append: "startsWith s (p @ q) \<Longrightarrow> startsWith s p"
proof -
  assume "startsWith s (p @ q)"
  then have a: "take (length (p @ q)) s = p @ q" by (simp only: startsWith_def)
  have "take (length p) s = take (length p) (take (length (p @ q)) s)" by (simp add: min_def)
  also have "\<dots> = take (length p) (p @ q)" by (simp only: a)
  also have "\<dots> = p" by simp
  finally show ?thesis by (simp only: startsWith_def)
qed

lemma includesStr_at: "take (length p) (drop i s) = p \<Longrightarrow> includesStr s p"
proof (induction s arbitrary: i)
  case Nil
  then show ?case by simp
next
  case (Cons c cs)
  show ?case
  proof (cases i)
    case 0
    with Cons.prems show ?thesis by (simp add: startsWith_def)
  next
    case (Suc j)
    with Cons.prems have "take (length p) (drop j cs) = p" by simp
    from Cons.IH [OF this] show ?thesis by simp
  qed
qed

lemma matchAt_includesCI: "matchAt canonicalize s i p \<Longrightarrow> includesCI s p"
proof -
  assume "matchAt canonicalize s i p"
  then have "take (length (map canonicalize p)) (drop i (map canonicalize s)) = map canonicalize p"
    by (simp add: matchAt_def take_map drop_map)
  from includesStr_at [OF this] show ?thesis by (simp add: includesCI_def)
qed

lemma wordlike:
  "js ''archaic'' \<noteq> [] \<and> isWordChar (hd (js ''archaic'')) \<and> isWordChar (last (js ''archaic''))"
  "js ''literary'' \<noteq> [] \<and> isWordChar (hd (js ''literary'')) \<and> isWordChar (last (js ''literary''))"
  "js ''dialect'' \<noteq> [] \<and> isWordChar (hd (js ''dialect'')) \<and> isWordChar (last (js ''dialect''))"
  "js ''old-fashioned'' \<noteq> [] \<and> isWordChar (hd (js ''old-fashioned'')) \<and> isWordChar (last (js ''old-fashioned''))"
  "js ''euphemism'' \<noteq> [] \<and> isWordChar (hd (js ''euphemism'')) \<and> isWordChar (last (js ''euphemism''))"
  "js ''Taiwan variant'' \<noteq> [] \<and> isWordChar (hd (js ''Taiwan variant'')) \<and> isWordChar (last (js ''Taiwan variant''))"
  by (simp_all add: js_def isWordChar_def isDigit_def)

lemma archaic_words:
  "testBounded (\<lambda>c. c) [js ''archaic'', js ''literary'', js ''dialect'', js ''old-fashioned''] s
     \<longleftrightarrow> (\<exists>p \<in> set [js ''archaic'', js ''literary'', js ''dialect'', js ''old-fashioned'']. wholeWord (\<lambda>c. c) p s)"
  by (rule testBounded_words) (use wordlike in auto)

lemma euphemism_word:
  "testBounded (\<lambda>c. c) [js ''euphemism''] s \<longleftrightarrow> wholeWord (\<lambda>c. c) (js ''euphemism'') s"
  using testBounded_words [of "[js ''euphemism'']" "\<lambda>c. c" s] wordlike by simp

lemma taiwan_variant_word:
  assumes "\<not> includesCI d (js ''Taiwan pr.'')" and "\<not> includesCI d (js ''also pr.'')"
  shows "testBounded canonicalize [js ''Taiwan pr.'', js ''also pr.'', js ''Taiwan variant''] d
           \<longleftrightarrow> wholeWord canonicalize (js ''Taiwan variant'') d"
proof -
  have "testBounded canonicalize [js ''Taiwan pr.'', js ''also pr.'', js ''Taiwan variant''] d
          \<longleftrightarrow> testBounded canonicalize [js ''Taiwan variant''] d"
    unfolding testBounded_iff using assms matchAt_includesCI by auto
  also have "\<dots> \<longleftrightarrow> wholeWord canonicalize (js ''Taiwan variant'') d"
    using testBounded_words [of "[js ''Taiwan variant'']" canonicalize d] wordlike canonicalize_wordChar
    by simp
  finally show ?thesis .
qed

lemma dedupe_set_distinct:
  "set (dedupe seen xs) = set xs - set seen \<and> distinct (dedupe seen xs)"
  by (induction xs arbitrary: seen) auto

lemma selectBestEntry_definitions:
  "snd (selectBestEntry entries) =
     sort_key (\<lambda>d. - scoreDefinition d) (dedupe [] (concat (map sense_d entries)))"
proof -
  obtain a b c where f: "fold bestStep entries ([], (case entries of [] \<Rightarrow> None | e # _ \<Rightarrow> Some e), 0) = (a, b, c)"
    by (cases "fold bestStep entries ([], (case entries of [] \<Rightarrow> None | e # _ \<Rightarrow> Some e), 0)") auto
  from fold_bestStep [OF f] have a: "a = concat (map sense_d entries)" by simp
  have e: "dedupe [] a = [] \<longleftrightarrow> a = []"
    using dedupe_set_distinct [of "[]" a] by (metis Diff_empty empty_set set_empty)
  have "snd (selectBestEntry entries) =
          (if length (sort_key (\<lambda>d. - scoreDefinition d) (dedupe [] a)) > 0
           then sort_key (\<lambda>d. - scoreDefinition d) (dedupe [] a) else a)"
    by (simp add: selectBestEntry_fold f)
  also have "\<dots> = sort_key (\<lambda>d. - scoreDefinition d) (dedupe [] a)"
    using e by (cases "dedupe [] a = []") auto
  finally show ?thesis by (simp add: a)
qed

text \<open>
  Claim C5, as amended. For every list of senses filed under one headword, the returned
  definitions are the definitions of all the senses pooled, each one once, in descending
  order of the relevance score; and when there is a sense at all, the selected entry is
  one of the senses and no sense has more non-reference definitions than it has (the
  score plays no part in that choice). The score of a definition that holds neither
  "Taiwan pr." nor "also pr." (in any case of the letters) is 100, minus 80 for a reference
  prefix, minus 40 for one of the whole words archaic, literary, dialect, old-fashioned,
  minus 30 for the whole words "Taiwan variant", minus 25 for the prefix abbr. or
  abbreviation, minus 20 for the whole word euphemism, minus 15 for the prefix "lit. ",
  minus 10 for the prefix "fig. ", minus 35 for the prefix "CL:", minus 20 for fewer than
  5 code units, plus 10 for "to " before a lower-case letter, plus 5 for "a " or "the "
  before a lower-case letter.
\<close>

theorem definition_ranking:
  "(entries \<noteq> [] \<longrightarrow>
      (\<exists>best \<in> set entries. fst (selectBestEntry entries) = Some best
          \<and> (\<forall>x \<in> set entries. realCount x \<le> realCount best)))
   \<and> set (snd (selectBestEntry entries)) = (\<Union>e \<in> set entries. set (sense_d e))
   \<and> distinct (snd (selectBestEntry entries))
   \<and> sorted_wrt (\<lambda>a b. scoreDefinition b \<le> scoreDefinition a) (snd (selectBestEntry entries))
   \<and> (\<not> includesCI d (js ''Taiwan pr.'') \<and> \<not> includesCI d (js ''also pr.'') \<longrightarrow>
        scoreDefinition d = amendedScore d)"
proof (intro conjI impI)
  assume "entries \<noteq> []"
  from selectBestEntry_best [OF this]
  show "\<exists>best \<in> set entries. fst (selectBestEntry entries) = Some best
          \<and> (\<forall>x \<in> set entries. realCount x \<le> realCount best)" .
next
  show "set (snd (selectBestEntry entries)) = (\<Union>e \<in> set entries. set (sense_d e))"
    using dedupe_set_distinct [of "[]" "concat (map sense_d entries)"]
    by (simp add: selectBestEntry_definitions)
next
  show "distinct (snd (selectBestEntry entries))"
    using dedupe_set_distinct [of "[]" "concat (map sense_d entries)"]
    by (simp add: selectBestEntry_definitions)
next
  have "sorted (map (\<lambda>d. - scoreDefinition d) (snd (selectBestEntry entries)))"
    by (simp add: selectBestEntry_definitions)
  then show "sorted_wrt (\<lambda>a b. scoreDefinition b \<le> scoreDefinition a) (snd (selectBestEntry entries))"
    by (simp add: sorted_map)
next
  assume t: "\<not> includesCI d (js ''Taiwan pr.'') \<and> \<not> includesCI d (js ''also pr.'')"
  have abbr: "startsWithAny (toLowerCase d) [js ''abbr. '', js ''abbr.'', js ''abbreviation'']
                \<longleftrightarrow> startsWithAny (toLowerCase d) [js ''abbr.'', js ''abbreviation'']"
  proof -
    have "js ''abbr. '' = js ''abbr.'' @ [32]" by (simp add: js_def)
    then have "startsWith s (js ''abbr. '') \<Longrightarrow> startsWith s (js ''abbr.'')" for s
      using startsWith_append [of s "js ''abbr.''" "[32]"] by simp
    then show ?thesis by (auto simp: startsWithAny_def)
  qed
  have athe: "\<not> (startsWithThenLetter s (js ''a '') \<and> startsWithThenLetter s (js ''the ''))" for s
  proof -
    have "js ''a '' = [97] @ [32]" and "js ''the '' = [116] @ js ''he ''" by (simp_all add: js_def)
    then have "startsWith s (js ''a '') \<Longrightarrow> startsWith s [97]"
      and "startsWith s (js ''the '') \<Longrightarrow> startsWith s [116]"
      using startsWith_append [of s "[97]" "[32]"] startsWith_append [of s "[116]" "js ''he ''"]
      by simp_all
    then show ?thesis by (auto simp: startsWithThenLetter_def startsWith_def)
  qed
  show "scoreDefinition d = amendedScore d"
    unfolding amendedScore_def scoreDefinition_sum isVariantDefinition_def archaic_words euphemism_word
      taiwan_variant_word [OF conjunct1 [OF t] conjunct2 [OF t]] abbr
    using athe [of "toLowerCase d"] by simp
qed

lemmas score_defs = string_defs isVariantDefinition_def startsWithAny_def testBounded_def matchAt_def
  canonicalize_def startsWithThenLetter_def

lemma sample_scores:
  "scoreDefinition defGood = 80" "scoreDefinition defProper = 100" "scoreDefinition defFond = 110"
  unfolding scoreDefinition_sum defGood_def defProper_def defFond_def by (simp_all add: score_defs)

lemma sample_distinct: "defGood \<noteq> defProper" "defGood \<noteq> defFond" "defProper \<noteq> defFond"
  by (simp_all add: defGood_def defProper_def defFond_def js_def)

lemma sample_real:
  "\<not> isVariantDefinition defGood" "\<not> isVariantDefinition defProper" "\<not> isVariantDefinition defFond"
  by (simp_all add: defGood_def defProper_def defFond_def score_defs)

lemma sample_best: "fst (selectBestEntry [senseHao3, senseHao4]) = Some senseHao3"
  by (simp add: selectBestEntry_fold bestStep_def Let_def senseHao3_def senseHao4_def sample_real)

lemma sample_sorted: "snd (selectBestEntry [senseHao3, senseHao4]) = [defFond, defProper, defGood]"
  using sample_distinct
  by (simp add: selectBestEntry_definitions senseHao3_def senseHao4_def sample_scores)

theorem definition_ranking_witness:
  "[senseHao3, senseHao4] \<noteq> []
   \<and> fst (selectBestEntry [senseHao3, senseHao4]) = Some senseHao3
   \<and> realCount senseHao3 = 2 \<and> realCount senseHao4 = 2
   \<and> snd (selectBestEntry [senseHao3, senseHao4]) = [defFond, defProper, defGood]
   \<and> map scoreDefinition [defFond, defProper, defGood] = [110, 100, 80]
   \<and> \<not> includesCI defFond (js ''Taiwan pr.'') \<and> \<not> includesCI defFond (js ''also pr.'')
   \<and> amendedScore defFond = 110"
proof -
  have h: "\<not> includesCI defFond (js ''Taiwan pr.'')" "\<not> includesCI defFond (js ''also pr.'')"
    by (simp_all add: includesCI_def defFond_def score_defs)
  have r: "realCount senseHao3 = 2" "realCount senseHao4 = 2"
    by (simp_all add: realCount_def senseHao3_def senseHao4_def sample_real)
  from definition_ranking [of "[senseHao3, senseHao4]" defFond] h
  have "scoreDefinition defFond = amendedScore defFond" by blast
  with h r sample_best sample_sorted sample_scores show ?thesis by simp
qed

text \<open>
  Where claim C5 fails as stated: a marker inside a longer word is not counted
  ("dialects"), "to " before a digit earns nothing, and "Taiwan pr." followed by a blank
  is not counted, because the pattern asks for a word boundary after the full stop.
\<close>

theorem definition_ranking_counterexample:
  "scoreDefinition (js ''Min dialects'') = 100 \<and> claimedScore (js ''Min dialects'') = 60
   \<and> scoreDefinition (js ''to 3D print'') = 100 \<and> claimedScore (js ''to 3D print'') = 110
   \<and> scoreDefinition (js ''Taiwan pr. [xia4]'') = 100 \<and> claimedScore (js ''Taiwan pr. [xia4]'') = 70"
  unfolding scoreDefinition_sum claimedScore_def by (simp add: score_defs)


section \<open>Sums of safe integers\<close>

lemma bitLength_le: "n < 2 ^ k \<Longrightarrow> bitLength n \<le> k"
proof (induction k arbitrary: n)
  case 0
  then show ?case by (simp add: bitLength.simps)
next
  case (Suc k)
  show ?case
  proof (cases "n = 0")
    case True
    then show ?thesis by (simp add: bitLength.simps)
  next
    case False
    from Suc.prems have "n div 2 < 2 ^ k" by simp
    from Suc.IH [OF this] False show ?thesis by (simp add: bitLength.simps [of n])
  qed
qed

lemma roundToDouble_safe: "isSafeInteger x \<Longrightarrow> roundToDouble x = x"
proof -
  assume "isSafeInteger x"
  then have "nat \<bar>x\<bar> < 2 ^ 53" by (simp add: isSafeInteger_def MAX_SAFE_INTEGER_def)
  from bitLength_le [OF this] have "bitLength (nat \<bar>x\<bar>) - 53 = 0" by simp
  then show ?thesis by (simp add: roundToDouble_def Let_def mult_sgn_abs)
qed

lemma jsAdd_safe: "isSafeInteger (a + b) \<Longrightarrow> jsAdd a b = a + b"
  by (simp add: jsAdd_def roundToDouble_safe)

lemma isSafeInteger_between:
  "isSafeInteger a \<Longrightarrow> isSafeInteger b \<Longrightarrow> (a \<le> x \<and> x \<le> b) \<or> (b \<le> x \<and> x \<le> a) \<Longrightarrow> isSafeInteger x"
  by (auto simp: isSafeInteger_def)

lemma bitLength_limit: "bitLength 9007199254740993 = 54" "bitLength 9007199254740994 = 54"
  by (simp_all add: bitLength.simps)

text \<open>At \<open>2^53\<close> adding 1 changes nothing, and adding 1 twice is not adding 2.\<close>

lemma jsAdd_at_limit:
  "jsAdd 9007199254740992 1 = 9007199254740992" "jsAdd 9007199254740992 2 = 9007199254740994"
  by (simp_all add: jsAdd_def roundToDouble_def Let_def bitLength_limit)

lemmas number_defs = jsAdd_safe isSafeInteger_def MAX_SAFE_INTEGER_def


section \<open>The object store\<close>

lemma dbGet_Some: "dbGet k vs = Some e \<Longrightarrow> vocab_id e = k \<and> e \<in> set vs"
  by (induction vs) (auto simp: dbGet_def split: if_splits)

lemma dbGet_None: "dbGet k vs = None \<longleftrightarrow> k \<notin> vocab_id ` set vs"
  by (induction vs) (auto simp: dbGet_def)

lemma dbGet_dbPut_same: "dbGet (vocab_id e) (dbPut e vs) = Some e"
  by (induction vs) (auto simp: dbGet_def)

lemma dbGet_dbPut_other: "k \<noteq> vocab_id e \<Longrightarrow> dbGet k (dbPut e vs) = dbGet k vs"
  by (induction vs) (auto simp: dbGet_def)

lemma ids_dbPut:
  "map vocab_id (dbPut e vs) =
     (if vocab_id e \<in> vocab_id ` set vs then map vocab_id vs else map vocab_id vs @ [vocab_id e])"
  by (induction vs) auto

lemma set_dbPut: "set (dbPut e vs) \<subseteq> insert e (set vs)"
  by (induction vs) auto

lemma count_ids: "length (filter (\<lambda>x. vocab_id x = k) vs) = length (filter (\<lambda>i. i = k) (map vocab_id vs))"
  by (induction vs) auto

lemma vocabulary_syncToChrome: "vocabulary (syncToChrome pf e st) = vocabulary st"
  by (auto simp: syncToChrome_def syncToChromeTry_def Let_def split: sum.splits if_splits)

lemma save_vocabulary:
  "vocabulary (snd (saveVocabularyEntry pf now word p ds cs ctx st)) =
     dbPut (fst (saveVocabularyEntry pf now word p ds cs ctx st)) (vocabulary st)"
  by (simp add: saveVocabularyEntry_def Let_def vocabulary_syncToChrome)

lemma save_id:
  "vocab_id (fst (saveVocabularyEntry pf now word p ds cs ctx st)) = generateWordId pf word"
  by (auto simp: saveVocabularyEntry_def Let_def split: option.splits dest: dbGet_Some)

lemma save_get:
  "dbGet (generateWordId pf word) (vocabulary (snd (saveVocabularyEntry pf now word p ds cs ctx st)))
     = Some (fst (saveVocabularyEntry pf now word p ds cs ctx st))"
  using dbGet_dbPut_same [of "fst (saveVocabularyEntry pf now word p ds cs ctx st)" "vocabulary st"]
  by (simp add: save_vocabulary save_id)

lemma save_create:
  "dbGet (generateWordId pf word) (vocabulary st) = None \<Longrightarrow>
     fst (saveVocabularyEntry pf now word p ds cs ctx st) =
       \<lparr>vocab_id = generateWordId pf word, vocab_word = word, vocab_pinyin = p,
        vocab_definitions = ds, lookupCount = 1, firstSeenAt = now, lastSeenAt = now,
        contexts = (case ctx of
                      Some (a, b) \<Rightarrow> [\<lparr>sentence = a, sourceUrl = b, timestamp = now\<rparr>]
                    | None \<Rightarrow> []),
        vocab_characters = cs, vocab_hskLevel = None\<rparr>"
  by (simp add: saveVocabularyEntry_def Let_def)

lemma save_update_count:
  "dbGet (generateWordId pf word) (vocabulary st) = Some old \<Longrightarrow>
     lookupCount (fst (saveVocabularyEntry pf now word p ds cs ctx st)) = jsAdd (lookupCount old) 1"
  by (simp add: saveVocabularyEntry_def Let_def split: option.splits prod.splits)

lemma save_update_contexts:
  "dbGet (generateWordId pf word) (vocabulary st) = Some old \<Longrightarrow>
     contexts (fst (saveVocabularyEntry pf now word p ds cs ctx st)) =
       (case ctx of
          Some (a, b) \<Rightarrow>
            if length (contexts old) < MAX_CONTEXTS_PER_WORD \<and> a \<notin> sentence ` set (contexts old)
            then contexts old @ [\<lparr>sentence = a, sourceUrl = b, timestamp = now\<rparr>]
            else contexts old
        | None \<Rightarrow> contexts old)"
  apply (simp add: saveVocabularyEntry_def Let_def list_ex_iff image_iff split: option.splits prod.splits)
  apply blast
  done

text \<open>The entry a save returns, in closed form.\<close>

lemma save_entry:
  "fst (saveVocabularyEntry pf now word p ds cs ctx st) =
     (case dbGet (normalizeNFC pf word) (vocabulary st) of
        None \<Rightarrow>
          \<lparr>vocab_id = normalizeNFC pf word, vocab_word = word, vocab_pinyin = p,
           vocab_definitions = ds, lookupCount = 1, firstSeenAt = now, lastSeenAt = now,
           contexts = (case ctx of
                         Some (a, b) \<Rightarrow> [\<lparr>sentence = a, sourceUrl = b, timestamp = now\<rparr>]
                       | None \<Rightarrow> []),
           vocab_characters = cs, vocab_hskLevel = None\<rparr>
      | Some old \<Rightarrow>
          old\<lparr>lookupCount := jsAdd (lookupCount old) 1,
              lastSeenAt := now,
              vocab_definitions := (if ds = [] then vocab_definitions old else ds),
              vocab_characters := (if cs = [] then vocab_characters old else cs),
              contexts :=
                (case ctx of
                   Some (a, b) \<Rightarrow>
                     if length (contexts old) < 5 \<and> a \<notin> sentence ` set (contexts old)
                     then contexts old @ [\<lparr>sentence = a, sourceUrl = b, timestamp = now\<rparr>]
                     else contexts old
                 | None \<Rightarrow> contexts old)\<rparr>)"
proof (cases "dbGet (normalizeNFC pf word) (vocabulary st)")
  case None
  then show ?thesis by (simp add: saveVocabularyEntry_def generateWordId_def Let_def)
next
  case old: (Some old)
  show ?thesis
  proof (cases ctx)
    case None
    with old show ?thesis by (simp add: saveVocabularyEntry_def generateWordId_def Let_def)
  next
    case (Some ab)
    obtain a b where ab: "ab = (a, b)" by (cases ab)
    have dup: "list_ex (\<lambda>c. sentence c = a) (contexts old) \<longleftrightarrow> a \<in> sentence ` set (contexts old)"
      by (auto simp: list_ex_iff)
    from old Some ab show ?thesis
      by (simp add: saveVocabularyEntry_def generateWordId_def Let_def dup MAX_CONTEXTS_PER_WORD_def)
  qed
qed


section \<open>Saving a lookup\<close>

text \<open>
  Claim C3, as amended. The key of a word is its canonical composition. The first call of
  \<open>saveVocabularyEntry\<close> for a key adds exactly one entry, with \<open>lookupCount = 1\<close> and
  \<open>firstSeenAt = lastSeenAt\<close>; a call for a key that is already stored replaces that entry
  in place (the list of stored ids does not change) and raises its \<open>lookupCount\<close> by
  exactly 1, as long as the count stays a safe integer. Two calls for the same key on a
  store without it leave one entry for the key, with \<open>lookupCount = 2\<close>.
\<close>

theorem save_twice:
  assumes same: "normalizeNFC pf word' = normalizeNFC pf word"
    and safe: "\<forall>old. dbGet (normalizeNFC pf word) (vocabulary st) = Some old \<longrightarrow>
                 isSafeInteger (lookupCount old) \<and> isSafeInteger (lookupCount old + 2)"
  shows
   "let k = normalizeNFC pf word;
        r1 = saveVocabularyEntry pf now word p ds cs ctx st;
        r2 = saveVocabularyEntry pf now' word' p' ds' cs' ctx' (snd r1)
    in vocab_id (fst r1) = k \<and> vocab_id (fst r2) = k
       \<and> dbGet k (vocabulary (snd r1)) = Some (fst r1) \<and> dbGet k (vocabulary (snd r2)) = Some (fst r2)
       \<and> lookupCount (fst r2) = lookupCount (fst r1) + 1
       \<and> map vocab_id (vocabulary (snd r2)) = map vocab_id (vocabulary (snd r1))
       \<and> (case dbGet k (vocabulary st) of
            None \<Rightarrow> lookupCount (fst r1) = 1 \<and> firstSeenAt (fst r1) = lastSeenAt (fst r1)
                    \<and> map vocab_id (vocabulary (snd r1)) = map vocab_id (vocabulary st) @ [k]
                    \<and> length (filter (\<lambda>x. vocab_id x = k) (vocabulary (snd r1))) = 1
                    \<and> length (filter (\<lambda>x. vocab_id x = k) (vocabulary (snd r2))) = 1
                    \<and> lookupCount (fst r2) = 2
          | Some old \<Rightarrow> lookupCount (fst r1) = lookupCount old + 1
                    \<and> map vocab_id (vocabulary (snd r1)) = map vocab_id (vocabulary st))"
proof -
  define k where "k = normalizeNFC pf word"
  define r1 where "r1 = saveVocabularyEntry pf now word p ds cs ctx st"
  define r2 where "r2 = saveVocabularyEntry pf now' word' p' ds' cs' ctx' (snd r1)"
  have gk: "generateWordId pf word = k" "generateWordId pf word' = k"
    by (simp_all add: generateWordId_def k_def same)
  have id1: "vocab_id (fst r1) = k" by (simp add: r1_def save_id gk)
  have v1: "vocabulary (snd r1) = dbPut (fst r1) (vocabulary st)"
    by (simp add: r1_def save_vocabulary)
  have g1: "dbGet k (vocabulary (snd r1)) = Some (fst r1)"
    using save_get [of pf word now p ds cs ctx st] by (simp add: gk r1_def)
  have id2: "vocab_id (fst r2) = k" by (simp add: r2_def save_id gk)
  have v2: "vocabulary (snd r2) = dbPut (fst r2) (vocabulary (snd r1))"
    by (simp add: r2_def save_vocabulary)
  have g2: "dbGet k (vocabulary (snd r2)) = Some (fst r2)"
    using save_get [of pf word' now' p' ds' cs' ctx' "snd r1"] by (simp add: gk r2_def)
  have c2': "lookupCount (fst r2) = jsAdd (lookupCount (fst r1)) 1"
    using save_update_count [of pf word' "snd r1" "fst r1" now' p' ds' cs' ctx'] g1
    by (simp add: r2_def gk)
  have in1: "k \<in> vocab_id ` set (vocabulary (snd r1))"
    using g1 dbGet_None [of k "vocabulary (snd r1)"] by auto
  have ids2: "map vocab_id (vocabulary (snd r2)) = map vocab_id (vocabulary (snd r1))"
    using in1 by (simp add: v2 ids_dbPut id2)
  have rest: "lookupCount (fst r2) = lookupCount (fst r1) + 1
       \<and> (case dbGet k (vocabulary st) of
            None \<Rightarrow> lookupCount (fst r1) = 1 \<and> firstSeenAt (fst r1) = lastSeenAt (fst r1)
                    \<and> map vocab_id (vocabulary (snd r1)) = map vocab_id (vocabulary st) @ [k]
                    \<and> length (filter (\<lambda>x. vocab_id x = k) (vocabulary (snd r1))) = 1
                    \<and> length (filter (\<lambda>x. vocab_id x = k) (vocabulary (snd r2))) = 1
                    \<and> lookupCount (fst r2) = 2
          | Some old \<Rightarrow> lookupCount (fst r1) = lookupCount old + 1
                    \<and> map vocab_id (vocabulary (snd r1)) = map vocab_id (vocabulary st))"
  proof (cases "dbGet k (vocabulary st)")
    case None
    then have notin: "k \<notin> vocab_id ` set (vocabulary st)" by (simp add: dbGet_None)
    have e1: "lookupCount (fst r1) = 1 \<and> firstSeenAt (fst r1) = lastSeenAt (fst r1)"
      using None save_create [of pf word st now p ds cs ctx] by (simp add: r1_def gk)
    have ids1: "map vocab_id (vocabulary (snd r1)) = map vocab_id (vocabulary st) @ [k]"
      using notin by (simp add: v1 ids_dbPut id1)
    have "filter (\<lambda>i. i = k) (map vocab_id (vocabulary st)) = []"
      using notin by (auto simp: filter_empty_conv)
    then have n1: "length (filter (\<lambda>x. vocab_id x = k) (vocabulary (snd r1))) = 1"
      by (simp add: count_ids ids1)
    then have n2: "length (filter (\<lambda>x. vocab_id x = k) (vocabulary (snd r2))) = 1"
      by (simp add: count_ids ids2)
    have c2: "lookupCount (fst r2) = 2" using c2' e1 by (simp add: number_defs)
    from None e1 ids1 n1 n2 c2 show ?thesis by simp
  next
    case (Some old)
    then have "k \<in> vocab_id ` set (vocabulary st)"
      using dbGet_None [of k "vocabulary st"] by auto
    then have ids1: "map vocab_id (vocabulary (snd r1)) = map vocab_id (vocabulary st)"
      by (simp add: v1 ids_dbPut id1)
    from safe Some have s0: "isSafeInteger (lookupCount old)" and s2: "isSafeInteger (lookupCount old + 2)"
      by (simp_all add: k_def)
    have s1: "isSafeInteger (lookupCount old + 1)"
      by (rule isSafeInteger_between [OF s0 s2]) simp
    have c1: "lookupCount (fst r1) = lookupCount old + 1"
      using Some save_update_count [of pf word st old now p ds cs ctx] s1
      by (simp add: r1_def gk jsAdd_safe)
    have "isSafeInteger (lookupCount old + 1 + 1)" using s2 by (simp add: add.assoc)
    from jsAdd_safe [OF this] have "lookupCount (fst r2) = lookupCount (fst r1) + 1"
      using c2' c1 by simp
    with Some ids1 c1 show ?thesis by simp
  qed
  have "vocab_id (fst r1) = k \<and> vocab_id (fst r2) = k
       \<and> dbGet k (vocabulary (snd r1)) = Some (fst r1) \<and> dbGet k (vocabulary (snd r2)) = Some (fst r2)
       \<and> lookupCount (fst r2) = lookupCount (fst r1) + 1
       \<and> map vocab_id (vocabulary (snd r2)) = map vocab_id (vocabulary (snd r1))
       \<and> (case dbGet k (vocabulary st) of
            None \<Rightarrow> lookupCount (fst r1) = 1 \<and> firstSeenAt (fst r1) = lastSeenAt (fst r1)
                    \<and> map vocab_id (vocabulary (snd r1)) = map vocab_id (vocabulary st) @ [k]
                    \<and> length (filter (\<lambda>x. vocab_id x = k) (vocabulary (snd r1))) = 1
                    \<and> length (filter (\<lambda>x. vocab_id x = k) (vocabulary (snd r2))) = 1
                    \<and> lookupCount (fst r2) = 2
          | Some old \<Rightarrow> lookupCount (fst r1) = lookupCount old + 1
                    \<and> map vocab_id (vocabulary (snd r1)) = map vocab_id (vocabulary st))"
    using id1 id2 g1 g2 ids2 rest by (intro conjI) simp_all
  then show ?thesis unfolding Let_def k_def r1_def r2_def .
qed

lemmas store_defs = pf0_def st0_def wordZhong_def recA_def recB_def generateWordId_def dbGet_def
  receive_def syncFromChrome_def mergeRecord_def

lemma stKnown_store:
  "vocabulary stKnown =
     [\<lparr>vocab_id = wordZhong, vocab_word = wordZhong, vocab_pinyin = [122, 104, 333, 110, 103],
       vocab_definitions = [js ''middle''], lookupCount = 4,
       firstSeenAt = 3000, lastSeenAt = 3500, contexts = [],
       vocab_characters = [], vocab_hskLevel = None\<rparr>]"
  by (simp add: stKnown_def)

theorem save_twice_witness:
  "normalizeNFC pf0 [20013] = normalizeNFC pf0 [20013]
   \<and> dbGet (normalizeNFC pf0 [20013]) (vocabulary st0) = None
   \<and> map lookupCount (vocabulary (snd (saveVocabularyEntry pf0 2000 [20013] (js ''zhong1'') [] [] None
         (snd (saveVocabularyEntry pf0 1000 [20013] (js ''zhong1'') [js ''middle''] [] None st0))))) = [2]
   \<and> map lookupCount (vocabulary stKnown) = [4] \<and> isSafeInteger 4 \<and> isSafeInteger (4 + 2)
   \<and> map lookupCount (vocabulary (snd (saveVocabularyEntry pf0 2000 [20013] (js ''zhong1'') [] [] None
         (snd (saveVocabularyEntry pf0 1000 [20013] (js ''zhong1'') [js ''middle''] [] None stKnown))))) = [6]"
proof -
  have n: "normalizeNFC pf0 [20013] = [20013]" by (simp add: pf0_def)
  have none: "dbGet (normalizeNFC pf0 [20013]) (vocabulary st0) = None" by (simp add: st0_def dbGet_def)
  have s: "isSafeInteger 4" "isSafeInteger (4 + 2)" by (simp_all add: isSafeInteger_def MAX_SAFE_INTEGER_def)
  have old: "dbGet (normalizeNFC pf0 [20013]) (vocabulary stKnown) = Some (hd (vocabulary stKnown))"
    "lookupCount (hd (vocabulary stKnown)) = 4" "map vocab_id (vocabulary stKnown) = [[20013]]"
    by (simp_all add: stKnown_store n dbGet_def wordZhong_def)
  have h0: "\<forall>old. dbGet (normalizeNFC pf0 [20013]) (vocabulary st0) = Some old \<longrightarrow>
                 isSafeInteger (lookupCount old) \<and> isSafeInteger (lookupCount old + 2)"
    using none by simp
  have h1: "\<forall>e. dbGet (normalizeNFC pf0 [20013]) (vocabulary stKnown) = Some e \<longrightarrow>
                 isSafeInteger (lookupCount e) \<and> isSafeInteger (lookupCount e + 2)"
    using old s by simp
  define a1 where "a1 = saveVocabularyEntry pf0 1000 [20013] (js ''zhong1'') [js ''middle''] [] None st0"
  define a2 where "a2 = saveVocabularyEntry pf0 2000 [20013] (js ''zhong1'') [] [] None (snd a1)"
  define b1 where "b1 = saveVocabularyEntry pf0 1000 [20013] (js ''zhong1'') [js ''middle''] [] None stKnown"
  define b2 where "b2 = saveVocabularyEntry pf0 2000 [20013] (js ''zhong1'') [] [] None (snd b1)"
  note ta = save_twice [OF refl h0, of 1000 "js ''zhong1''" "[js ''middle'']" "[]" None 2000 "js ''zhong1''" "[]" "[]" None,
      unfolded Let_def, folded a1_def, folded a2_def]
  note tb = save_twice [OF refl h1, of 1000 "js ''zhong1''" "[js ''middle'']" "[]" None 2000 "js ''zhong1''" "[]" "[]" None,
      unfolded Let_def, folded b1_def, folded b2_def]
  from ta none have a: "lookupCount (fst a2) = 2" "vocabulary (snd a2) = dbPut (fst a2) (vocabulary (snd a1))"
    "map vocab_id (vocabulary (snd a1)) = map vocab_id (vocabulary st0) @ [normalizeNFC pf0 [20013]]"
    "vocab_id (fst a2) = normalizeNFC pf0 [20013]"
    by (simp_all add: a2_def save_vocabulary)
  from a(3) obtain x where x: "vocabulary (snd a1) = [x]" "vocab_id x = [20013]"
    by (cases "vocabulary (snd a1)") (auto simp: st0_def n)
  from a x have ra: "map lookupCount (vocabulary (snd a2)) = [2]" by (simp add: n)
  from tb old have b: "lookupCount (fst b1) = 5" "lookupCount (fst b2) = lookupCount (fst b1) + 1"
    "vocabulary (snd b2) = dbPut (fst b2) (vocabulary (snd b1))"
    "map vocab_id (vocabulary (snd b1)) = map vocab_id (vocabulary stKnown)"
    "vocab_id (fst b2) = normalizeNFC pf0 [20013]"
    by (simp_all add: b2_def save_vocabulary)
  from b(4) old(3) obtain y where y: "vocabulary (snd b1) = [y]" "vocab_id y = [20013]"
    by (cases "vocabulary (snd b1)") auto
  from b y have rb: "map lookupCount (vocabulary (snd b2)) = [6]" by (simp add: n)
  have k4: "map lookupCount (vocabulary stKnown) = [4]" by (simp add: stKnown_store)
  from none s ra rb k4 show ?thesis unfolding a1_def a2_def b1_def b2_def by simp
qed

text \<open>
  Where claim C3 fails as stated: at the count \<open>2^53\<close> a save leaves the count as it is,
  because the next integer is not a Number.
\<close>

theorem save_twice_counterexample:
  "map lookupCount (vocabulary stLimit) = [9007199254740992]
   \<and> lookupCount (fst (saveVocabularyEntry pf0 4000 wordZhong [] [] [] None stLimit)) = 9007199254740992
   \<and> map lookupCount (vocabulary (snd (saveVocabularyEntry pf0 4000 wordZhong [] [] [] None stLimit)))
       = [9007199254740992]
   \<and> map lookupCount (vocabulary (snd (saveVocabularyEntry pf0 4000 wordZhong [] [] [] None stLimit)))
       \<noteq> [9007199254740992 + 1]"
  by (simp add: save_vocabulary save_entry stLimit_def pf0_def dbGet_def wordZhong_def jsAdd_at_limit)


section \<open>Inbound merge\<close>

lemma mergeRecord_same:
  "dbGet k (mergeRecord (k, r) db) =
     Some (case dbGet k db of
             Some old \<Rightarrow> old\<lparr>lookupCount := jsAdd (lookupCount old) (sync_c r),
                               firstSeenAt := min (firstSeenAt old) (sync_f r),
                               lastSeenAt := max (lastSeenAt old) (sync_l r)\<rparr>
           | None \<Rightarrow> \<lparr>vocab_id = k, vocab_word = sync_w r, vocab_pinyin = sync_p r,
                    vocab_definitions = sync_d r, lookupCount = sync_c r,
                    firstSeenAt = sync_f r, lastSeenAt = sync_l r, contexts = [],
                    vocab_characters = [], vocab_hskLevel = None\<rparr>)"
proof (cases "dbGet k db")
  case None
  then show ?thesis
    using dbGet_dbPut_same [of "\<lparr>vocab_id = k, vocab_word = sync_w r, vocab_pinyin = sync_p r,
                    vocab_definitions = sync_d r, lookupCount = sync_c r,
                    firstSeenAt = sync_f r, lastSeenAt = sync_l r, contexts = [],
                    vocab_characters = [], vocab_hskLevel = None\<rparr>" db]
    by (simp add: mergeRecord_def)
next
  case (Some old)
  then have "vocab_id old = k" by (simp add: dbGet_Some)
  then show ?thesis
    using Some dbGet_dbPut_same [of "old\<lparr>lookupCount := jsAdd (lookupCount old) (sync_c r),
                               firstSeenAt := min (firstSeenAt old) (sync_f r),
                               lastSeenAt := max (lastSeenAt old) (sync_l r)\<rparr>" db]
    by (simp add: mergeRecord_def)
qed

lemma mergeRecord_other: "k \<noteq> k' \<Longrightarrow> dbGet k (mergeRecord (k', r) db) = dbGet k db"
proof (cases "dbGet k' db")
  case None
  assume "k \<noteq> k'"
  with None show ?thesis by (simp add: mergeRecord_def dbGet_dbPut_other)
next
  case (Some old)
  assume "k \<noteq> k'"
  moreover from Some have "vocab_id old = k'" by (simp add: dbGet_Some)
  ultimately show ?thesis using Some by (simp add: mergeRecord_def dbGet_dbPut_other)
qed

lemma fold_merge_other: "k \<notin> fst ` set m \<Longrightarrow> dbGet k (fold mergeRecord m db) = dbGet k db"
proof (induction m arbitrary: db)
  case Nil
  show ?case by simp
next
  case (Cons kv m)
  obtain k' r where kv: "kv = (k', r)" by (cases kv)
  with Cons.prems have "k \<noteq> k'" "k \<notin> fst ` set m" by auto
  then show ?case using Cons.IH [of "mergeRecord (k', r) db"] by (simp add: kv mergeRecord_other)
qed

lemma fold_merge_same:
  "distinct (map fst m) \<Longrightarrow> (k, r) \<in> set m \<Longrightarrow>
     dbGet k (fold mergeRecord m db) = dbGet k (mergeRecord (k, r) db)"
proof (induction m arbitrary: db)
  case Nil
  then show ?case by simp
next
  case (Cons kv m)
  obtain k' r' where kv: "kv = (k', r')" by (cases kv)
  show ?case
  proof (cases "(k, r) = kv")
    case True
    have "fst kv \<notin> set (map fst m)" using Cons.prems(1) by simp
    with True [symmetric] have "k \<notin> fst ` set m" by simp
    then show ?thesis using True by (simp add: fold_merge_other)
  next
    case False
    with Cons.prems kv have in_m: "(k, r) \<in> set m" and d: "distinct (map fst m)" by auto
    from in_m have "k \<in> fst ` set m" by force
    with Cons.prems kv have ne: "k \<noteq> k'" by auto
    have "dbGet k (fold mergeRecord m (mergeRecord (k', r') db)) =
            dbGet k (mergeRecord (k, r) (mergeRecord (k', r') db))"
      using Cons.IH [OF d in_m] .
    also have "\<dots> = dbGet k (mergeRecord (k, r) db)"
      using ne by (simp add: mergeRecord_same mergeRecord_other)
    finally show ?thesis by (simp add: kv)
  qed
qed

lemma syncStorage_syncFromChrome: "syncStorage (syncFromChrome pf st) = syncStorage st"
  by (simp add: syncFromChrome_def Let_def)

text \<open>
  Claim C2, as amended. When the replica is read and holds the record \<open>r\<close> under the key
  \<open>k\<close>, \<open>syncFromChrome\<close> leaves under \<open>k\<close>: the local entry with \<open>lookupCount\<close> raised by
  the remote count, \<open>firstSeenAt\<close> the minimum and \<open>lastSeenAt\<close> the maximum of the two, if
  there was a local entry and the sum of the counts is a safe integer; a stub made of the
  compact fields, with no contexts and no characters, if there was none. Two records for
  a key the store does not hold, merged one after the other, give the sum of their counts
  in either order, when that sum is a safe integer.
\<close>

theorem inbound_merge:
  assumes "\<not> syncGetFails pf" and "syncStorage st = Some m" and "distinct (map fst m)"
    and "(k, r) \<in> set m"
    and safe: "\<forall>old. dbGet k (vocabulary st) = Some old \<longrightarrow> isSafeInteger (lookupCount old + sync_c r)"
  shows "dbGet k (vocabulary (syncFromChrome pf st)) =
           Some (case dbGet k (vocabulary st) of
                   Some old \<Rightarrow> old\<lparr>lookupCount := lookupCount old + sync_c r,
                                     firstSeenAt := min (firstSeenAt old) (sync_f r),
                                     lastSeenAt := max (lastSeenAt old) (sync_l r)\<rparr>
                 | None \<Rightarrow> \<lparr>vocab_id = k, vocab_word = sync_w r, vocab_pinyin = sync_p r,
                          vocab_definitions = sync_d r, lookupCount = sync_c r,
                          firstSeenAt = sync_f r, lastSeenAt = sync_l r, contexts = [],
                          vocab_characters = [], vocab_hskLevel = None\<rparr>)
         \<and> (dbGet k (vocabulary st) = None \<longrightarrow>
              (\<forall>ra rb. isSafeInteger (sync_c ra + sync_c rb) \<longrightarrow>
                       map_option lookupCount
                         (dbGet k (vocabulary (receive pf [(k, rb)] (receive pf [(k, ra)] st))))
                       = Some (sync_c ra + sync_c rb)
                     \<and> map_option lookupCount
                         (dbGet k (vocabulary (receive pf [(k, ra)] (receive pf [(k, rb)] st))))
                       = Some (sync_c ra + sync_c rb)))"
proof
  have v: "vocabulary (syncFromChrome pf st) = fold mergeRecord m (vocabulary st)"
    using assms(1,2) by (simp add: syncFromChrome_def)
  have "jsAdd (lookupCount old) (sync_c r) = lookupCount old + sync_c r"
    if "dbGet k (vocabulary st) = Some old" for old
    using safe that by (simp add: jsAdd_safe)
  then show "dbGet k (vocabulary (syncFromChrome pf st)) =
           Some (case dbGet k (vocabulary st) of
                   Some old \<Rightarrow> old\<lparr>lookupCount := lookupCount old + sync_c r,
                                     firstSeenAt := min (firstSeenAt old) (sync_f r),
                                     lastSeenAt := max (lastSeenAt old) (sync_l r)\<rparr>
                 | None \<Rightarrow> \<lparr>vocab_id = k, vocab_word = sync_w r, vocab_pinyin = sync_p r,
                          vocab_definitions = sync_d r, lookupCount = sync_c r,
                          firstSeenAt = sync_f r, lastSeenAt = sync_l r, contexts = [],
                          vocab_characters = [], vocab_hskLevel = None\<rparr>)"
    using fold_merge_same [OF assms(3,4), of "vocabulary st"]
    by (simp add: v mergeRecord_same split: option.splits)
next
  have two: "map_option lookupCount (dbGet k (vocabulary (receive pf [(k, y)] (receive pf [(k, x)] st))))
               = Some (jsAdd (sync_c x) (sync_c y))"
    if "dbGet k (vocabulary st) = None" for x y
    using that assms(1) by (simp add: receive_def syncFromChrome_def mergeRecord_same)
  show "dbGet k (vocabulary st) = None \<longrightarrow>
              (\<forall>ra rb. isSafeInteger (sync_c ra + sync_c rb) \<longrightarrow>
                       map_option lookupCount
                         (dbGet k (vocabulary (receive pf [(k, rb)] (receive pf [(k, ra)] st))))
                       = Some (sync_c ra + sync_c rb)
                     \<and> map_option lookupCount
                         (dbGet k (vocabulary (receive pf [(k, ra)] (receive pf [(k, rb)] st))))
                       = Some (sync_c ra + sync_c rb))"
  proof (intro impI allI)
    fix ra rb :: SyncedVocabEntry
    assume n: "dbGet k (vocabulary st) = None" and s: "isSafeInteger (sync_c ra + sync_c rb)"
    from s have s': "isSafeInteger (sync_c rb + sync_c ra)" by (simp add: add.commute)
    show "map_option lookupCount
                         (dbGet k (vocabulary (receive pf [(k, rb)] (receive pf [(k, ra)] st))))
                       = Some (sync_c ra + sync_c rb)
                     \<and> map_option lookupCount
                         (dbGet k (vocabulary (receive pf [(k, ra)] (receive pf [(k, rb)] st))))
                       = Some (sync_c ra + sync_c rb)"
      unfolding two [OF n] jsAdd_safe [OF s] jsAdd_safe [OF s'] by (simp add: add.commute)
  qed
qed

theorem inbound_merge_witness:
  "\<not> syncGetFails pf0 \<and> distinct (map fst [(wordZhong, recA)]) \<and> (wordZhong, recA) \<in> set [(wordZhong, recA)]
   \<and> syncStorage (st0\<lparr>syncStorage := Some [(wordZhong, recA)]\<rparr>) = Some [(wordZhong, recA)]
   \<and> dbGet wordZhong (vocabulary (st0\<lparr>syncStorage := Some [(wordZhong, recA)]\<rparr>)) = None
   \<and> map_option lookupCount (dbGet wordZhong (vocabulary (syncFromChrome pf0 (st0\<lparr>syncStorage := Some [(wordZhong, recA)]\<rparr>)))) = Some 3
   \<and> isSafeInteger (sync_c recA + sync_c recB)
   \<and> map_option lookupCount (dbGet wordZhong (vocabulary (receive pf0 [(wordZhong, recB)] (receive pf0 [(wordZhong, recA)] (st0\<lparr>syncStorage := Some [(wordZhong, recA)]\<rparr>))))) = Some 5
   \<and> map_option lookupCount (dbGet wordZhong (vocabulary (receive pf0 [(wordZhong, recA)] (receive pf0 [(wordZhong, recB)] (st0\<lparr>syncStorage := Some [(wordZhong, recA)]\<rparr>))))) = Some 5
   \<and> syncStorage stKnown = Some [(wordZhong, recA)]
   \<and> map_option lookupCount (dbGet wordZhong (vocabulary stKnown)) = Some 4
   \<and> isSafeInteger (4 + sync_c recA)
   \<and> map_option (\<lambda>e. (lookupCount e, firstSeenAt e, lastSeenAt e))
        (dbGet wordZhong (vocabulary (syncFromChrome pf0 stKnown))) = Some (7, 1000, 5000)"
proof -
  have h1: "\<not> syncGetFails pf0" by (simp add: pf0_def)
  have h2: "syncStorage (st0\<lparr>syncStorage := Some [(wordZhong, recA)]\<rparr>) = Some [(wordZhong, recA)]" by simp
  have h3: "distinct (map fst [(wordZhong, recA)])" by simp
  have h4: "(wordZhong, recA) \<in> set [(wordZhong, recA)]" by simp
  have h5: "dbGet wordZhong (vocabulary (st0\<lparr>syncStorage := Some [(wordZhong, recA)]\<rparr>)) = None"
    by (simp add: st0_def dbGet_def)
  have h6: "\<forall>old. dbGet wordZhong (vocabulary (st0\<lparr>syncStorage := Some [(wordZhong, recA)]\<rparr>)) = Some old
              \<longrightarrow> isSafeInteger (lookupCount old + sync_c recA)"
    using h5 by simp
  have s: "isSafeInteger (sync_c recA + sync_c recB)" "isSafeInteger (4 + sync_c recA)"
    by (simp_all add: recA_def recB_def isSafeInteger_def MAX_SAFE_INTEGER_def)
  note im = inbound_merge [OF h1 h2 h3 h4 h6]
  from conjunct1 [OF im] h5
  have a: "map_option lookupCount (dbGet wordZhong (vocabulary (syncFromChrome pf0 (st0\<lparr>syncStorage := Some [(wordZhong, recA)]\<rparr>)))) = Some 3"
    by (simp add: recA_def)
  note both = mp [OF spec [OF spec [OF mp [OF conjunct2 [OF im] h5], of recA], of recB] s(1)]
  from both
  have b: "map_option lookupCount (dbGet wordZhong (vocabulary (receive pf0 [(wordZhong, recB)] (receive pf0 [(wordZhong, recA)] (st0\<lparr>syncStorage := Some [(wordZhong, recA)]\<rparr>))))) = Some 5
   \<and> map_option lookupCount (dbGet wordZhong (vocabulary (receive pf0 [(wordZhong, recA)] (receive pf0 [(wordZhong, recB)] (st0\<lparr>syncStorage := Some [(wordZhong, recA)]\<rparr>))))) = Some 5"
    by (simp add: recA_def recB_def)
  have k2: "syncStorage stKnown = Some [(wordZhong, recA)]" by (simp add: stKnown_def)
  have k5: "dbGet wordZhong (vocabulary stKnown) = Some (hd (vocabulary stKnown))"
    by (simp add: stKnown_store dbGet_def)
  have kc: "lookupCount (hd (vocabulary stKnown)) = 4" "firstSeenAt (hd (vocabulary stKnown)) = 3000"
    "lastSeenAt (hd (vocabulary stKnown)) = 3500"
    by (simp_all add: stKnown_store)
  have k6: "\<forall>old. dbGet wordZhong (vocabulary stKnown) = Some old \<longrightarrow> isSafeInteger (lookupCount old + sync_c recA)"
    using k5 kc s(2) by simp
  from conjunct1 [OF inbound_merge [OF h1 k2 h3 h4 k6]] k5 kc
  have c: "map_option (\<lambda>e. (lookupCount e, firstSeenAt e, lastSeenAt e))
        (dbGet wordZhong (vocabulary (syncFromChrome pf0 stKnown))) = Some (7, 1000, 5000)"
    by (simp add: recA_def)
  from k5 kc have k4: "map_option lookupCount (dbGet wordZhong (vocabulary stKnown)) = Some 4" by simp
  from h1 h2 h3 h4 h5 a s b k2 k4 c show ?thesis by simp
qed

lemma stLimit_store:
  "dbGet wordZhong (vocabulary stLimit) = Some (hd (vocabulary stLimit))"
  "lookupCount (hd (vocabulary stLimit)) = 9007199254740992"
  "syncStorage stLimit = Some [(wordZhong, recOne)]" "sync_c recOne = 1"
  by (simp_all add: stLimit_def dbGet_def recOne_def)

lemma merge_at_limit:
  "map_option lookupCount (dbGet wordZhong (vocabulary (syncFromChrome pf0 stLimit))) = Some 9007199254740992"
  "syncStorage (syncFromChrome pf0 stLimit) = syncStorage stLimit"
  by (simp_all add: syncFromChrome_def pf0_def stLimit_store mergeRecord_same jsAdd_at_limit)

text \<open>
  Where claim C2 fails as stated: with the local count at \<open>2^53\<close> and a remote count of 1
  the merged count is \<open>2^53\<close>, not the sum.
\<close>

theorem inbound_merge_counterexample:
  "map_option lookupCount (dbGet wordZhong (vocabulary stLimit)) = Some 9007199254740992
   \<and> syncStorage stLimit = Some [(wordZhong, recOne)] \<and> sync_c recOne = 1
   \<and> map_option lookupCount (dbGet wordZhong (vocabulary (syncFromChrome pf0 stLimit)))
       = Some 9007199254740992
   \<and> map_option lookupCount (dbGet wordZhong (vocabulary (syncFromChrome pf0 stLimit)))
       \<noteq> Some (9007199254740992 + sync_c recOne)"
  by (simp add: stLimit_store merge_at_limit)

text \<open>
  Claim C10, as amended. The inbound merge is not idempotent: every run of a start-up or
  install listener calls \<open>syncFromChrome\<close>, and every call adds the full count of the
  unchanged replica record to the local entry, so \<open>n\<close> events add \<open>n\<close> times the remote
  count, as long as the local count stays a safe integer.
\<close>

theorem inbound_merge_repeats:
  assumes "\<not> syncGetFails pf" and "syncStorage st = Some m" and "distinct (map fst m)"
    and "(k, r) \<in> set m" and "dbGet k (vocabulary st) = Some old"
    and "isSafeInteger (lookupCount old)"
    and "isSafeInteger (lookupCount old + int (length evs) * sync_c r)"
  shows "map_option lookupCount (dbGet k (vocabulary (fold (handleEvent pf) evs st)))
           = Some (lookupCount old + int (length evs) * sync_c r)
         \<and> syncStorage (fold (handleEvent pf) evs st) = Some m"
  using assms(2,5,6,7)
proof (induction evs arbitrary: st old)
  case Nil
  then show ?case by simp
next
  case (Cons ev evs)
  have step: "handleEvent pf ev st = syncFromChrome pf st" by (cases ev) simp_all
  have v: "vocabulary (syncFromChrome pf st) = fold mergeRecord m (vocabulary st)"
    using assms(1) Cons.prems(1) by (simp add: syncFromChrome_def)
  have n: "lookupCount old + int (length (ev # evs)) * sync_c r
             = lookupCount old + sync_c r + int (length evs) * sync_c r"
    by (simp add: algebra_simps)
  have "0 \<le> int (length evs) * sync_c r \<or> int (length evs) * sync_c r \<le> 0" by linarith
  then have "(lookupCount old \<le> lookupCount old + sync_c r
               \<and> lookupCount old + sync_c r \<le> lookupCount old + int (length (ev # evs)) * sync_c r)
           \<or> (lookupCount old + int (length (ev # evs)) * sync_c r \<le> lookupCount old + sync_c r
               \<and> lookupCount old + sync_c r \<le> lookupCount old)"
    unfolding n by (cases "0 \<le> sync_c r") (auto simp: zero_le_mult_iff mult_le_0_iff)
  from isSafeInteger_between [OF Cons.prems(3,4) this]
  have s1: "isSafeInteger (lookupCount old + sync_c r)" .
  define new where "new = old\<lparr>lookupCount := lookupCount old + sync_c r,
                       firstSeenAt := min (firstSeenAt old) (sync_f r),
                       lastSeenAt := max (lastSeenAt old) (sync_l r)\<rparr>"
  have g: "dbGet k (vocabulary (syncFromChrome pf st)) = Some new"
    using fold_merge_same [OF assms(3,4), of "vocabulary st"] Cons.prems(2)
    by (simp add: v mergeRecord_same jsAdd_safe [OF s1] new_def)
  have s: "syncStorage (syncFromChrome pf st) = Some m"
    using Cons.prems(1) by (simp add: syncStorage_syncFromChrome)
  have c: "lookupCount new = lookupCount old + sync_c r" by (simp add: new_def)
  have s2: "isSafeInteger (lookupCount new)" using s1 c by simp
  have s3: "isSafeInteger (lookupCount new + int (length evs) * sync_c r)"
    using Cons.prems(4) unfolding n c .
  show ?case using Cons.IH [OF s g s2 s3] by (simp add: step c algebra_simps)
qed

theorem inbound_merge_repeats_witness:
  "\<not> syncGetFails pf0 \<and> syncStorage stKnown = Some [(wordZhong, recA)]
   \<and> distinct (map fst [(wordZhong, recA)]) \<and> (wordZhong, recA) \<in> set [(wordZhong, recA)]
   \<and> map_option lookupCount (dbGet wordZhong (vocabulary stKnown)) = Some 4
   \<and> isSafeInteger 4 \<and> isSafeInteger (4 + 3 * sync_c recA)
   \<and> map_option lookupCount
        (dbGet wordZhong (vocabulary (fold (handleEvent pf0) [OnStartup, OnInstalled, OnStartup] stKnown)))
      = Some 13"
proof -
  have h1: "\<not> syncGetFails pf0" by (simp add: pf0_def)
  have h2: "syncStorage stKnown = Some [(wordZhong, recA)]" by (simp add: stKnown_def)
  have h3: "distinct (map fst [(wordZhong, recA)])" by simp
  have h4: "(wordZhong, recA) \<in> set [(wordZhong, recA)]" by simp
  have h5: "dbGet wordZhong (vocabulary stKnown) = Some (hd (vocabulary stKnown))"
    by (simp add: stKnown_store dbGet_def)
  have c: "lookupCount (hd (vocabulary stKnown)) = 4" by (simp add: stKnown_store)
  have s: "isSafeInteger 4" "isSafeInteger (4 + 3 * sync_c recA)"
    by (simp_all add: recA_def isSafeInteger_def MAX_SAFE_INTEGER_def)
  have h6: "isSafeInteger (lookupCount (hd (vocabulary stKnown)))" using s c by simp
  have h7: "isSafeInteger (lookupCount (hd (vocabulary stKnown))
              + int (length [OnStartup, OnInstalled, OnStartup]) * sync_c recA)" using s c by simp
  from inbound_merge_repeats [OF h1 h2 h3 h4 h5 h6 h7]
  have "map_option lookupCount
        (dbGet wordZhong (vocabulary (fold (handleEvent pf0) [OnStartup, OnInstalled, OnStartup] stKnown)))
      = Some 13"
    by (simp add: c recA_def)
  with h1 h2 h3 h4 h5 c s show ?thesis by simp
qed

text \<open>
  Where claim C10 fails as stated: with the local count at \<open>2^53\<close> two start-ups on a
  replica record of count 1 leave the count at \<open>2^53\<close>; they do not add 2.
\<close>

theorem inbound_merge_repeats_counterexample:
  "map_option lookupCount (dbGet wordZhong (vocabulary stLimit)) = Some 9007199254740992
   \<and> syncStorage stLimit = Some [(wordZhong, recOne)] \<and> sync_c recOne = 1
   \<and> map_option lookupCount
        (dbGet wordZhong (vocabulary (fold (handleEvent pf0) [OnStartup, OnStartup] stLimit)))
      = Some 9007199254740992
   \<and> map_option lookupCount
        (dbGet wordZhong (vocabulary (fold (handleEvent pf0) [OnStartup, OnStartup] stLimit)))
      \<noteq> Some (9007199254740992 + 2 * sync_c recOne)"
  by (simp add: syncFromChrome_def pf0_def stLimit_def mergeRecord_def dbGet_def recOne_def jsAdd_at_limit)


section \<open>The context list\<close>

lemma in_dbPut: "x \<in> set (dbPut e vs) \<Longrightarrow> x = e \<or> x \<in> set vs"
  using set_dbPut [of e vs] by auto

lemma contexts_mergeRecord:
  assumes "\<forall>e \<in> set db. P (contexts e)" and "P []"
  shows "\<forall>e \<in> set (mergeRecord kv db). P (contexts e)"
proof -
  obtain k r where kv: "kv = (k, r)" by (cases kv)
  show ?thesis
  proof (cases "dbGet k db")
    case None
    then show ?thesis using assms by (auto simp: kv mergeRecord_def dest!: in_dbPut)
  next
    case (Some old)
    then have "old \<in> set db" by (simp add: dbGet_Some)
    with assms(1) have "P (contexts old)" by simp
    then show ?thesis using Some assms(1) by (auto simp: kv mergeRecord_def dest!: in_dbPut)
  qed
qed

lemma contexts_fold_merge:
  assumes "P []"
  shows "\<forall>e \<in> set db. P (contexts e) \<Longrightarrow> \<forall>e \<in> set (fold mergeRecord m db). P (contexts e)"
proof (induction m arbitrary: db)
  case Nil
  then show ?case by simp
next
  case (Cons kv m)
  from contexts_mergeRecord [OF Cons.prems assms]
  have "\<forall>e \<in> set (mergeRecord kv db). P (contexts e)" .
  from Cons.IH [OF this] show ?case by simp
qed

lemma contexts_save:
  assumes "\<forall>e \<in> set (vocabulary st). length (contexts e) \<le> 5 \<and> distinct (map sentence (contexts e))"
  shows "length (contexts (fst (saveVocabularyEntry pf now word p ds cs ctx st))) \<le> 5
         \<and> distinct (map sentence (contexts (fst (saveVocabularyEntry pf now word p ds cs ctx st))))"
proof (cases "dbGet (generateWordId pf word) (vocabulary st)")
  case None
  then show ?thesis by (simp add: save_create split: option.splits)
next
  case (Some old)
  then have "old \<in> set (vocabulary st)" by (simp add: dbGet_Some)
  with assms have "length (contexts old) \<le> 5 \<and> distinct (map sentence (contexts old))" by simp
  then show ?thesis
    by (simp add: save_update_contexts [OF Some] MAX_CONTEXTS_PER_WORD_def split: option.splits)
qed

text \<open>
  Claim C7. In every reachable state each entry has at most 5 contexts, with pairwise
  different sentences. On an update a context is appended exactly when the list is
  shorter than 5 and does not hold its sentence; a save on an entry with 5 contexts leaves
  them as they are, so the first five are kept and the sixth is dropped.
\<close>

theorem contexts_capped:
  "(reachable st \<longrightarrow>
      (\<forall>e \<in> set (vocabulary st). length (contexts e) \<le> 5 \<and> distinct (map sentence (contexts e))))
   \<and> (dbGet (generateWordId pf word) (vocabulary st) = Some old \<longrightarrow>
        contexts (fst (saveVocabularyEntry pf now word p ds cs (Some (a, b)) st)) =
          (if length (contexts old) < 5 \<and> a \<notin> sentence ` set (contexts old)
           then contexts old @ [\<lparr>sentence = a, sourceUrl = b, timestamp = now\<rparr>]
           else contexts old))
   \<and> (dbGet (generateWordId pf word) (vocabulary st) = Some old \<and> length (contexts old) = 5 \<longrightarrow>
        contexts (fst (saveVocabularyEntry pf now word p ds cs (Some (a, b)) st)) = contexts old)"
proof (intro conjI impI)
  assume "reachable st"
  then show "\<forall>e \<in> set (vocabulary st). length (contexts e) \<le> 5 \<and> distinct (map sentence (contexts e))"
  proof (induction rule: reachable.induct)
    case (start r)
    show ?case by simp
  next
    case (save st pf now word p ds cs ctx)
    from contexts_save [OF save.IH, of pf now word p ds cs ctx] save.IH
    show ?case by (auto simp: save_vocabulary dest!: in_dbPut)
  next
    case (inbound st pf)
    have "\<forall>e \<in> set (fold mergeRecord m (vocabulary st)).
            length (contexts e) \<le> 5 \<and> distinct (map sentence (contexts e))" for m
      using contexts_fold_merge [of "\<lambda>cs. length cs \<le> 5 \<and> distinct (map sentence cs)", OF _ inbound.IH]
      by simp
    with inbound.IH show ?case by (simp add: syncFromChrome_def Let_def)
  next
    case (remote st r)
    then show ?case by simp
  qed
next
  assume "dbGet (generateWordId pf word) (vocabulary st) = Some old"
  then show "contexts (fst (saveVocabularyEntry pf now word p ds cs (Some (a, b)) st)) =
          (if length (contexts old) < 5 \<and> a \<notin> sentence ` set (contexts old)
           then contexts old @ [\<lparr>sentence = a, sourceUrl = b, timestamp = now\<rparr>]
           else contexts old)"
    by (simp add: save_update_contexts MAX_CONTEXTS_PER_WORD_def)
next
  assume "dbGet (generateWordId pf word) (vocabulary st) = Some old \<and> length (contexts old) = 5"
  then show "contexts (fst (saveVocabularyEntry pf now word p ds cs (Some (a, b)) st)) = contexts old"
    by (simp add: save_update_contexts MAX_CONTEXTS_PER_WORD_def)
qed

lemma vocabulary_saveCtx:
  "vocabulary (saveCtx n st) =
     dbPut (fst (saveVocabularyEntry pf0 (int n) wordZhong [] [] [] (Some ([115, 48 + n], js ''u'')) st))
       (vocabulary st)"
  by (simp add: saveCtx_def save_vocabulary)

lemmas stFive_defs = stFive_def vocabulary_saveCtx save_entry st0_def pf0_def dbGet_def wordZhong_def
  number_defs js_def

lemma stFive_contexts:
  "map (\<lambda>e. map sentence (contexts e)) (vocabulary stFive) = [[[115, 49], [115, 50], [115, 51], [115, 52], [115, 53]]]"
  by (simp add: stFive_defs)

lemma stFive_ids: "map vocab_id (vocabulary stFive) = [wordZhong]"
  by (simp add: stFive_defs)

theorem contexts_capped_witness:
  "reachable stFive
   \<and> map_option (\<lambda>e. map sentence (contexts e)) (dbGet (generateWordId pf0 wordZhong) (vocabulary stFive))
       = Some [[115, 49], [115, 50], [115, 51], [115, 52], [115, 53]]
   \<and> list_all (\<lambda>e. length (contexts e) \<le> 5 \<and> distinct (map sentence (contexts e))) (vocabulary stFive)
   \<and> map sentence (contexts (fst (saveVocabularyEntry pf0 6 wordZhong [] [] [] (Some ([115, 54], js ''u'')) stFive)))
       = [[115, 49], [115, 50], [115, 51], [115, 52], [115, 53]]"
proof -
  have r: "reachable stFive"
    unfolding stFive_def saveCtx_def st0_def by (intro reachable.save reachable.start)
  obtain old where old: "vocabulary stFive = [old]"
    using stFive_contexts by (cases "vocabulary stFive") auto
  with stFive_contexts have c: "map sentence (contexts old) = [[115, 49], [115, 50], [115, 51], [115, 52], [115, 53]]"
    by simp
  then have len: "length (contexts old) = 5" using length_map [of sentence "contexts old"] by simp
  have "vocab_id old = wordZhong"
    using old stFive_ids by simp
  then have g: "dbGet (generateWordId pf0 wordZhong) (vocabulary stFive) = Some old"
    by (simp add: old dbGet_def generateWordId_def pf0_def)
  note cc = contexts_capped [of stFive pf0 wordZhong old 6 "[]" "[]" "[]" "[115, 54]" "js ''u''"]
  from cc r have inv: "\<forall>e \<in> set (vocabulary stFive). length (contexts e) \<le> 5 \<and> distinct (map sentence (contexts e))"
    by blast
  from cc g len have "contexts (fst (saveVocabularyEntry pf0 6 wordZhong [] [] [] (Some ([115, 54], js ''u'')) stFive)) = contexts old"
    by blast
  with r g c inv show ?thesis by (simp add: list_all_iff)
qed


section \<open>The outbound replica\<close>

lemma save_snd:
  "snd (saveVocabularyEntry pf now word p ds cs ctx st) =
     syncToChrome pf (fst (saveVocabularyEntry pf now word p ds cs ctx st))
       (st\<lparr>vocabulary := dbPut (fst (saveVocabularyEntry pf now word p ds cs ctx st)) (vocabulary st)\<rparr>)"
  by (simp add: saveVocabularyEntry_def Let_def)

lemma syncToChrome_cases:
  "syncToChrome pf e st =
     (if syncGetFails pf then st\<lparr>warnings := warnings st @ [StorageError]\<rparr>
      else if length (stringifyPayload pf (putSynced e (case syncStorage st of None \<Rightarrow> [] | Some m \<Rightarrow> m))) < 100000
      then (if syncSetFails pf then st\<lparr>warnings := warnings st @ [StorageError]\<rparr>
            else st\<lparr>syncStorage := Some (putSynced e (case syncStorage st of None \<Rightarrow> [] | Some m \<Rightarrow> m))\<rparr>)
      else st)"
  by (simp add: syncToChrome_def syncToChromeTry_def Let_def)

text \<open>A string without control characters, quotation marks, backslashes and surrogates is quoted as it is.\<close>

lemma codePoints_plain: "\<forall>c \<in> set s. \<not> isSurrogate c \<Longrightarrow> codePoints s = map (\<lambda>c. [c]) s"
  by (induction s rule: codePoints.induct) (auto simp: isSurrogate_def)

lemma quote_plain:
  assumes "\<forall>c \<in> set s. 32 \<le> c \<and> c \<noteq> 34 \<and> c \<noteq> 92 \<and> \<not> isSurrogate c"
  shows "quoteJSONString s = 34 # s @ [34]"
proof -
  have "concat (map quoteCodePoint (map (\<lambda>c. [c]) s)) = s" using assms
    by (induction s) (auto simp: quoteCodePoint_def quoteCodeUnit_def)
  with assms show ?thesis by (simp add: quoteJSONString_def codePoints_plain)
qed

lemma quote_long:
  "quoteJSONString longText = 34 # longText @ [34]" "quoteJSONString longWord = 34 # longWord @ [34]"
  by (rule quote_plain, simp add: longText_def longWord_def isSurrogate_def)+

lemma length_long: "length longText = 100000" "length longWord = 20000"
  by (simp_all add: longText_def longWord_def)


lemma plain_long: "plainKey longWord"
proof -
  have "length k \<noteq> 20000" if "k \<in> set objectPrototypeKeys" for k
    using that by (auto simp: objectPrototypeKeys_def js_def)
  then show ?thesis using length_long(2) by (auto simp: plainKey_def)
qed

lemmas json_defs = stringifyPayload_def stringifyRecord_def jsonObject_def jsonArray_def SYNC_KEY_def
  quote_plain quote_long length_long isSurrogate_def decimal_def digits.simps js_def


lemma stOnce_state:
  "stOnce =
     \<lparr>vocabulary =
        [\<lparr>vocab_id = wordZhong, vocab_word = wordZhong, vocab_pinyin = [122, 104, 333, 110, 103],
          vocab_definitions = [js ''middle''], lookupCount = 1, firstSeenAt = 1000, lastSeenAt = 1000,
          contexts = [], vocab_characters = [], vocab_hskLevel = None\<rparr>],
      syncStorage =
        Some [(wordZhong, \<lparr>sync_w = wordZhong, sync_p = [122, 104, 333, 110, 103], sync_d = [js ''middle''],
                            sync_c = 1, sync_f = 1000, sync_l = 1000\<rparr>)],
      warnings = []\<rparr>"
proof -
  define e where "e = fst (saveVocabularyEntry pf0 1000 wordZhong [122, 104, 333, 110, 103] [js ''middle''] [] None st0)"
  have e: "e = \<lparr>vocab_id = wordZhong, vocab_word = wordZhong, vocab_pinyin = [122, 104, 333, 110, 103],
                vocab_definitions = [js ''middle''], lookupCount = 1, firstSeenAt = 1000, lastSeenAt = 1000,
                contexts = [], vocab_characters = [], vocab_hskLevel = None\<rparr>"
    by (simp add: e_def save_entry pf0_def st0_def dbGet_def)
  have p: "putSynced e [] =
             [(wordZhong, \<lparr>sync_w = wordZhong, sync_p = [122, 104, 333, 110, 103], sync_d = [js ''middle''],
                            sync_c = 1, sync_f = 1000, sync_l = 1000\<rparr>)]"
    by (simp add: putSynced_def e entryToSyncFormat_def truncateDefinitions_def MAX_SYNCED_DEFINITIONS_def
        MAX_SYNCED_DEF_LENGTH_def js_def)
  have l: "length (stringifyPayload pf0
             [(wordZhong, \<lparr>sync_w = wordZhong, sync_p = [122, 104, 333, 110, 103], sync_d = [js ''middle''],
                            sync_c = 1, sync_f = 1000, sync_l = 1000\<rparr>)]) = 81"
    by (simp add: json_defs pf0_def wordZhong_def)
  show ?thesis
    unfolding stOnce_def save_snd e_def [symmetric]
    by (simp add: syncToChrome_cases p l st0_def) (simp add: pf0_def e)
qed

lemma stOnce_eval:
  "map vocab_id (vocabulary stOnce) = [wordZhong] \<and> map lookupCount (vocabulary stOnce) = [1]
   \<and> map_option (map fst) (syncStorage stOnce) = Some [wordZhong] \<and> warnings stOnce = []"
  unfolding stOnce_state by simp




section \<open>Known words\<close>

text \<open>
  Claim C9. \<open>isWordKnown\<close> holds exactly when the store has an entry for the normalized
  key whose \<open>lookupCount\<close> is greater than 1. After the first save of a word the entry is
  stored with count 1 and the word is not known; and every segment of a lookup carries in
  \<open>isKnown\<close> the value of \<open>isWordKnown\<close> for its word in the state before the save.
\<close>

theorem known_needs_two_lookups:
  "(isWordKnown pf st word \<longleftrightarrow>
      (\<exists>e. dbGet (generateWordId pf word) (vocabulary st) = Some e \<and> 1 < lookupCount e))
   \<and> (dbGet (generateWordId pf word) (vocabulary st) = None \<longrightarrow>
        (let st' = snd (saveVocabularyEntry pf now word p ds cs ctx st)
         in (\<exists>e. dbGet (generateWordId pf word) (vocabulary st') = Some e \<and> lookupCount e = 1)
            \<and> \<not> isWordKnown pf st' word))
   \<and> (handleLookupResult pf cedict unihan radicals hsk st text = Inr res \<longrightarrow>
        (\<forall>seg \<in> set (segments res). isKnown seg = isWordKnown pf st (seg_word seg)))"
proof (intro conjI impI)
  show "isWordKnown pf st word \<longleftrightarrow>
      (\<exists>e. dbGet (generateWordId pf word) (vocabulary st) = Some e \<and> 1 < lookupCount e)"
    by (simp add: isWordKnown_def getVocabularyEntry_def split: option.splits)
next
  assume n: "dbGet (generateWordId pf word) (vocabulary st) = None"
  have "lookupCount (fst (saveVocabularyEntry pf now word p ds cs ctx st)) = 1"
    by (simp add: save_create [OF n])
  then show "let st' = snd (saveVocabularyEntry pf now word p ds cs ctx st)
         in (\<exists>e. dbGet (generateWordId pf word) (vocabulary st') = Some e \<and> lookupCount e = 1)
            \<and> \<not> isWordKnown pf st' word"
    by (simp add: Let_def save_get isWordKnown_def getVocabularyEntry_def)
next
  assume "handleLookupResult pf cedict unihan radicals hsk st text = Inr res"
  then show "\<forall>seg \<in> set (segments res). isKnown seg = isWordKnown pf st (seg_word seg)"
    by (auto simp: handleLookupResult_def performLookup_def Let_def split: sum.splits)
qed

lemma lookup_zhong:
  "map_sum id (\<lambda>res. map seg_word (segments res))
     (handleLookupResult pf0 simplifiedCedict noUnihan noRadicals noHsk stOnce wordZhong) = Inr [wordZhong]"
  by (simp add: handleLookupResult_def performLookup_def pf0_def wordZhong_def
      string_defs pinyin_defs dictionary_defs sample_defs Let_def)

theorem known_needs_two_lookups_witness:
  "dbGet (generateWordId pf0 wordZhong) (vocabulary st0) = None
   \<and> map lookupCount (vocabulary stOnce) = [1]
   \<and> \<not> isWordKnown pf0 stOnce wordZhong
   \<and> map_sum id (\<lambda>res. map (\<lambda>seg. (seg_word seg, isKnown seg)) (segments res))
        (handleLookupResult pf0 simplifiedCedict noUnihan noRadicals noHsk stOnce wordZhong)
       = Inr [(wordZhong, False)]"
proof -
  have none: "dbGet (generateWordId pf0 wordZhong) (vocabulary st0) = None"
    by (simp add: st0_def dbGet_def)
  note t = known_needs_two_lookups [of pf0 _ wordZhong]
  from t [of st0 1000 "[122, 104, 333, 110, 103]" "[js ''middle'']" "[]" None] none
  have nk: "\<not> isWordKnown pf0 stOnce wordZhong"
    unfolding Let_def stOnce_def by blast
  obtain res where res: "handleLookupResult pf0 simplifiedCedict noUnihan noRadicals noHsk stOnce wordZhong = Inr res"
    using lookup_zhong
    by (cases "handleLookupResult pf0 simplifiedCedict noUnihan noRadicals noHsk stOnce wordZhong") auto
  with lookup_zhong have w: "map seg_word (segments res) = [wordZhong]" by simp
  from t [of stOnce _ _ _ _ _ simplifiedCedict noUnihan noRadicals noHsk wordZhong res] res
  have "\<forall>seg \<in> set (segments res). isKnown seg = isWordKnown pf0 stOnce (seg_word seg)" by blast
  with w nk have "map (\<lambda>seg. (seg_word seg, isKnown seg)) (segments res) = [(wordZhong, False)]"
    by (cases "segments res") auto
  with none nk res stOnce_eval show ?thesis by simp
qed

end
